theory Spec2Isabelle
  imports Main "HOL-Library.Word"
begin

unbundle bit_operations_syntax

section \<open>Bytes, errors and Python strings\<close>

text \<open>
  A Python \<open>bytes\<close> value is a list of 8-bit words; a Python \<open>str\<close> is a list of
  Unicode code points (natural numbers). Every exception the module can raise is a
  constructor of \<open>error\<close>; a fallible operation returns \<open>error + 'a\<close>.
\<close>

type_synonym byte = "8 word"
type_synonym bytes = "byte list"
type_synonym pystr = "nat list"

datatype error =
    AssertionError
  | IndexError
  | DecodeError
  | UnicodeDecodeError
  | UnicodeEncodeError
  | ValueError

definition bindE :: "error + 'a \<Rightarrow> ('a \<Rightarrow> error + 'b) \<Rightarrow> error + 'b" where
  "bindE r f = (case r of Inl e \<Rightarrow> Inl e | Inr x \<Rightarrow> f x)"

text \<open>A string literal of the source, as code points and as ASCII bytes.\<close>

definition str_lit :: "string \<Rightarrow> pystr" where
  "str_lit s = map of_char s"

definition bytes_lit :: "string \<Rightarrow> bytes" where
  "bytes_lit s = map of_char s"

section \<open>The varint codec (third_party/leb128)\<close>

text \<open>
  Modelled from the spec: the \<open>leb128\<close> module (\<open>leb128.u.encode\<close>,
  \<open>leb128.u.decode_reader\<close>, \<open>leb128.i.decode_reader\<close>) is not among the sources.
  The encoder produces the minimal unsigned encoding, 7 payload bits per byte, least
  significant group first, continuation bit set on all but the last byte.
\<close>

fun leb128_u_encode :: "nat \<Rightarrow> bytes" where
  "leb128_u_encode n =
     (if n < 128 then [of_nat n]
      else of_nat (n mod 128 + 128) # leb128_u_encode (n div 128))"

declare leb128_u_encode.simps [simp del]

text \<open>
  Modelled from the spec: the reader takes bytes from the stream until one has the
  continuation bit clear; \<open>None\<close> when the stream ends first.
\<close>

fun leb128_take :: "bytes \<Rightarrow> bytes option" where
  "leb128_take [] = None"
| "leb128_take (b # bs) =
     (if unat b < 128 then Some [b] else map_option ((#) b) (leb128_take bs))"

text \<open>Modelled from the spec: the value of the bytes taken, unsigned.\<close>

fun leb128_u_decode :: "bytes \<Rightarrow> nat" where
  "leb128_u_decode [] = 0"
| "leb128_u_decode (b # bs) = unat b mod 128 + 128 * leb128_u_decode bs"

text \<open>
  Modelled from the spec: the signed value is the unsigned one, sign-extended from
  the sign bit (bit 6) of the last byte.
\<close>

definition leb128_i_decode :: "bytes \<Rightarrow> int" where
  "leb128_i_decode a =
     (if a \<noteq> [] \<and> 64 \<le> unat (last a) mod 128
      then int (leb128_u_decode a) - 2 ^ (7 * length a)
      else int (leb128_u_decode a))"

section \<open>The file object\<close>

text \<open>
  A file opened with \<open>open(name, 'rb')\<close>: its contents and the current position.
  \<open>read(n)\<close> returns at most \<open>n\<close> bytes, fewer at end of file, and advances by the
  number of bytes returned; \<open>seek\<close> may move past the end.
\<close>

type_synonym iobuf = "bytes \<times> nat"

definition io_read :: "iobuf \<Rightarrow> nat \<Rightarrow> bytes \<times> iobuf" where
  "io_read io n =
     (let got = take n (drop (snd io) (fst io))
      in (got, (fst io, snd io + length got)))"

definition io_tell :: "iobuf \<Rightarrow> nat" where
  "io_tell io = snd io"

definition io_seek :: "iobuf \<Rightarrow> nat \<Rightarrow> iobuf" where
  "io_seek io offset = (fst io, offset)"

definition toLEB :: "nat \<Rightarrow> bytes" where
  "toLEB num = leb128_u_encode num"

definition readULEB :: "iobuf \<Rightarrow> error + (nat \<times> iobuf)" where
  "readULEB iobuf =
     (case leb128_take (drop (snd iobuf) (fst iobuf)) of
        None \<Rightarrow> Inl DecodeError
      | Some a \<Rightarrow> Inr (leb128_u_decode a, (fst iobuf, snd iobuf + length a)))"

definition readSLEB :: "iobuf \<Rightarrow> error + (int \<times> iobuf)" where
  "readSLEB iobuf =
     (case leb128_take (drop (snd iobuf) (fst iobuf)) of
        None \<Rightarrow> Inl DecodeError
      | Some a \<Rightarrow> Inr (leb128_i_decode a, (fst iobuf, snd iobuf + length a)))"

section \<open>UTF-8 (the codec of Python's \<open>bytes.decode\<close> and \<open>str.encode\<close>)\<close>

text \<open>
  The strict decoder accepts exactly the well-formed sequences: no overlong forms, no
  surrogates (D800..DFFF), nothing above 10FFFF. The encoder refuses a surrogate.
\<close>

definition is_cont :: "byte \<Rightarrow> bool" where
  "is_cont b = (128 \<le> unat b \<and> unat b < 192)"

fun utf8_decode :: "bytes \<Rightarrow> pystr option" where
  "utf8_decode [] = Some []"
| "utf8_decode (b0 # bs) =
     (if unat b0 < 128 then map_option ((#) (unat b0)) (utf8_decode bs)
      else if 194 \<le> unat b0 \<and> unat b0 < 224 then
        (case bs of
           b1 # r \<Rightarrow>
             if is_cont b1
             then map_option ((#) ((unat b0 - 192) * 64 + (unat b1 - 128))) (utf8_decode r)
             else None
         | _ \<Rightarrow> None)
      else if 224 \<le> unat b0 \<and> unat b0 < 240 then
        (case bs of
           b1 # b2 # r \<Rightarrow>
             let c = (unat b0 - 224) * 4096 + (unat b1 - 128) * 64 + (unat b2 - 128)
             in if is_cont b1 \<and> is_cont b2 \<and> 2048 \<le> c \<and> \<not> (55296 \<le> c \<and> c < 57344)
                then map_option ((#) c) (utf8_decode r)
                else None
         | _ \<Rightarrow> None)
      else if 240 \<le> unat b0 \<and> unat b0 < 245 then
        (case bs of
           b1 # b2 # b3 # r \<Rightarrow>
             let c = (unat b0 - 240) * 262144 + (unat b1 - 128) * 4096
                     + (unat b2 - 128) * 64 + (unat b3 - 128)
             in if is_cont b1 \<and> is_cont b2 \<and> is_cont b3 \<and> 65536 \<le> c \<and> c < 1114112
                then map_option ((#) c) (utf8_decode r)
                else None
         | _ \<Rightarrow> None)
      else None)"

definition utf8_encode_cp :: "nat \<Rightarrow> bytes option" where
  "utf8_encode_cp c =
     (if c < 128 then Some [of_nat c]
      else if c < 2048 then Some [of_nat (192 + c div 64), of_nat (128 + c mod 64)]
      else if c < 65536 then
        (if 55296 \<le> c \<and> c < 57344 then None
         else Some [of_nat (224 + c div 4096), of_nat (128 + c div 64 mod 64),
                    of_nat (128 + c mod 64)])
      else if c < 1114112 then
        Some [of_nat (240 + c div 262144), of_nat (128 + c div 4096 mod 64),
              of_nat (128 + c div 64 mod 64), of_nat (128 + c mod 64)]
      else None)"

fun utf8_encode :: "pystr \<Rightarrow> bytes option" where
  "utf8_encode [] = Some []"
| "utf8_encode (c # cs) =
     (case utf8_encode_cp c of
        None \<Rightarrow> None
      | Some bs \<Rightarrow> map_option ((@) bs) (utf8_encode cs))"

definition decode_utf8 :: "bytes \<Rightarrow> error + pystr" where
  "decode_utf8 bs = (case utf8_decode bs of None \<Rightarrow> Inl UnicodeDecodeError | Some s \<Rightarrow> Inr s)"

definition encode_utf8 :: "pystr \<Rightarrow> error + bytes" where
  "encode_utf8 s = (case utf8_encode s of None \<Rightarrow> Inl UnicodeEncodeError | Some bs \<Rightarrow> Inr bs)"

section \<open>The module reader\<close>

text \<open>The enumerations; \<open>ExternType(b)\<close> raises ValueError outside its values.\<close>

datatype SecType =
    CUSTOM | TYPE_s | IMPORT | FUNCTION | TABLE | MEMORY | EVENT | GLOBAL
  | EXPORT | START | ELEM | DATACOUNT | CODE | DATA

fun SecType_value :: "SecType \<Rightarrow> byte" where
  "SecType_value CUSTOM = 0"
| "SecType_value TYPE_s = 1"
| "SecType_value IMPORT = 2"
| "SecType_value FUNCTION = 3"
| "SecType_value TABLE = 4"
| "SecType_value MEMORY = 5"
| "SecType_value EVENT = 13"
| "SecType_value GLOBAL = 6"
| "SecType_value EXPORT = 7"
| "SecType_value START = 8"
| "SecType_value ELEM = 9"
| "SecType_value DATACOUNT = 12"
| "SecType_value CODE = 10"
| "SecType_value DATA = 11"

datatype ExternType = FUNC | TABLE_x | MEMORY_x | GLOBAL_x | EVENT_x

definition ExternType_of :: "byte \<Rightarrow> error + ExternType" where
  "ExternType_of b =
     (if b = 0 then Inr FUNC
      else if b = 1 then Inr TABLE_x
      else if b = 2 then Inr MEMORY_x
      else if b = 3 then Inr GLOBAL_x
      else if b = 4 then Inr EVENT_x
      else Inl ValueError)"

record Section =
  type_s :: byte
  size_s :: nat
  offset_s :: nat

record Limits =
  flags :: byte
  initial :: nat
  maximum :: nat

record Import =
  type_i :: ExternType
  mod_i :: pystr
  field_i :: pystr

record Module =
  size_m :: nat
  buf :: iobuf
  sections :: "Section list"
  section_map :: "byte \<rightharpoonup> Section"

definition Module_readByte :: "Module \<Rightarrow> error + (byte \<times> Module)" where
  "Module_readByte m =
     (case io_read (buf m) 1 of
        ([], io) \<Rightarrow> Inl IndexError
      | (b # _, io) \<Rightarrow> Inr (b, m\<lparr>buf := io\<rparr>))"

definition Module_readULEB :: "Module \<Rightarrow> error + (nat \<times> Module)" where
  "Module_readULEB m = bindE (readULEB (buf m)) (\<lambda>(v, io). Inr (v, m\<lparr>buf := io\<rparr>))"

definition Module_readSLEB :: "Module \<Rightarrow> error + (int \<times> Module)" where
  "Module_readSLEB m = bindE (readSLEB (buf m)) (\<lambda>(v, io). Inr (v, m\<lparr>buf := io\<rparr>))"

definition Module_readString :: "Module \<Rightarrow> error + (pystr \<times> Module)" where
  "Module_readString m =
     bindE (Module_readULEB m) (\<lambda>(size, m1).
       case io_read (buf m1) size of
         (got, io) \<Rightarrow> bindE (decode_utf8 got) (\<lambda>s. Inr (s, m1\<lparr>buf := io\<rparr>)))"

definition Module_readLimits :: "Module \<Rightarrow> error + (Limits \<times> Module)" where
  "Module_readLimits m =
     bindE (Module_readByte m) (\<lambda>(flags, m1).
     bindE (Module_readULEB m1) (\<lambda>(initial, m2).
       if flags AND 1 \<noteq> 0
       then bindE (Module_readULEB m2) (\<lambda>(maximum, m3).
              Inr (\<lparr>flags = flags, initial = initial, maximum = maximum\<rparr>, m3))
       else Inr (\<lparr>flags = flags, initial = initial, maximum = 0\<rparr>, m2)))"

definition Module_seek :: "Module \<Rightarrow> nat \<Rightarrow> Module" where
  "Module_seek m offset = m\<lparr>buf := io_seek (buf m) offset\<rparr>"

text \<open>One turn of the \<open>while\<close> loop of \<open>readSectionHeaders\<close>.\<close>

definition readSectionHeaders_body :: "Module \<Rightarrow> error + Module" where
  "readSectionHeaders_body m =
     bindE (Module_readByte m) (\<lambda>(section_type, m1).
     bindE (Module_readULEB m1) (\<lambda>(section_size, m2).
       let offset = io_tell (buf m2);
           section_info = \<lparr>type_s = section_type, size_s = section_size, offset_s = offset\<rparr>;
           m3 = m2\<lparr>sections := sections m2 @ [section_info]\<rparr>
       in if section_type \<noteq> SecType_value CUSTOM
          then if section_type \<in> dom (section_map m3) then Inl AssertionError
               else Inr (Module_seek
                      (m3\<lparr>section_map := (section_map m3)(section_type \<mapsto> section_info)\<rparr>)
                      (offset + section_size))
          else Inr (Module_seek m3 (offset + section_size))))"

text \<open>
  A turn of the loop that does not fail has read at least the type byte and one size
  byte inside the file, so the loop comes to an end.
\<close>

lemma Module_readByte_drop:
  "Module_readByte m =
     (case drop (snd (buf m)) (fst (buf m)) of
        [] \<Rightarrow> Inl IndexError
      | b # _ \<Rightarrow> Inr (b, m\<lparr>buf := (fst (buf m), Suc (snd (buf m)))\<rparr>))"
proof (cases "drop (snd (buf m)) (fst (buf m))")
  case Nil
  then show ?thesis by (simp add: Module_readByte_def io_read_def)
next
  case (Cons b rest)
  then show ?thesis by (simp add: Module_readByte_def io_read_def)
qed

lemma leb128_take_length:
  "leb128_take bs = Some a \<Longrightarrow> 0 < length a \<and> length a \<le> length bs"
  by (induction bs arbitrary: a) (auto split: if_splits)

lemma readSectionHeaders_body_advances:
  assumes "readSectionHeaders_body m = Inr m'"
  shows "snd (buf m) < length (fst (buf m))" and "fst (buf m') = fst (buf m)"
    and "snd (buf m) < snd (buf m')"
proof -
  from assms obtain b m1 where rb: "Module_readByte m = Inr (b, m1)"
    by (auto simp: readSectionHeaders_body_def bindE_def split: sum.splits)
  from rb have ne: "drop (snd (buf m)) (fst (buf m)) \<noteq> []"
    and m1: "m1 = m\<lparr>buf := (fst (buf m), Suc (snd (buf m)))\<rparr>"
    by (auto simp: Module_readByte_drop split: list.splits)
  from ne show "snd (buf m) < length (fst (buf m))" by simp
  from assms rb obtain n m2 where ru: "Module_readULEB m1 = Inr (n, m2)"
    by (auto simp: readSectionHeaders_body_def bindE_def split: sum.splits)
  from ru m1 obtain k where m2: "m2 = m1\<lparr>buf := (fst (buf m), Suc (snd (buf m)) + k)\<rparr>"
    by (auto simp: Module_readULEB_def readULEB_def bindE_def split: option.splits)
  from assms rb ru have
    "m' = Module_seek (m2\<lparr>sections := sections m2 @
            [\<lparr>type_s = b, size_s = n, offset_s = io_tell (buf m2)\<rparr>]\<rparr>) (io_tell (buf m2) + n)
     \<or> m' = Module_seek (m2\<lparr>sections := sections m2 @
            [\<lparr>type_s = b, size_s = n, offset_s = io_tell (buf m2)\<rparr>],
          section_map := (section_map m2)(b \<mapsto>
            \<lparr>type_s = b, size_s = n, offset_s = io_tell (buf m2)\<rparr>)\<rparr>) (io_tell (buf m2) + n)"
    by (auto simp: readSectionHeaders_body_def bindE_def Let_def split: if_splits)
  with m1 m2 show "fst (buf m') = fst (buf m)" and "snd (buf m) < snd (buf m')"
    by (auto simp: Module_seek_def io_seek_def io_tell_def)
qed

function Module_readSectionHeaders :: "Module \<Rightarrow> error + Module" where
  "Module_readSectionHeaders m =
     (if io_tell (buf m) \<noteq> size_m m
      then (case readSectionHeaders_body m of
              Inl e \<Rightarrow> Inl e
            | Inr m' \<Rightarrow> Module_readSectionHeaders m')
      else Inr m)"
  by pat_completeness auto

termination
proof (relation "measure (\<lambda>m. length (fst (buf m)) - snd (buf m))")
  show "wf (measure (\<lambda>m. length (fst (buf m)) - snd (buf m)))" by simp
next
  fix m m'
  assume "readSectionHeaders_body m = Inr m'"
  from readSectionHeaders_body_advances [OF this]
  show "(m', m) \<in> measure (\<lambda>m. length (fst (buf m)) - snd (buf m))"
    by simp
qed

declare Module_readSectionHeaders.simps [simp del]

text \<open>
  \<open>Module(filename)\<close>: the argument is the contents of the file. The two
  \<open>assert\<close>s on magic and version, then the scan of the section headers.
\<close>

definition Module_init :: "bytes \<Rightarrow> error + Module" where
  "Module_init file =
     (let m0 = \<lparr>size_m = length file, buf = (file, 0), sections = [],
                section_map = Map.empty\<rparr>;
          (magic, io1) = io_read (buf m0) 4;
          (version, io2) = io_read io1 4
      in if magic \<noteq> 0 # bytes_lit ''asm'' then Inl AssertionError
         else if version \<noteq> [1, 0, 0, 0] then Inl AssertionError
         else Module_readSectionHeaders (m0\<lparr>buf := io2\<rparr>))"

section \<open>The dylink section\<close>

text \<open>The \<open>while needed_count\<close> loop of \<open>parse_dylink_section\<close>.\<close>

fun read_needed :: "nat \<Rightarrow> Module \<Rightarrow> pystr list \<Rightarrow> error + (pystr list \<times> Module)" where
  "read_needed 0 m needed = Inr (needed, m)"
| "read_needed (Suc needed_count) m needed =
     bindE (Module_readString m) (\<lambda>(libname, m1).
       read_needed needed_count m1 (needed @ [libname]))"

text \<open>
  \<open>parse_dylink_section\<close>, returning with its tuple the module object as the
  function leaves it (the position it has read up to).
\<close>

definition parse_dylink_section_run ::
  "bytes \<Rightarrow> error + ((nat \<times> nat \<times> nat \<times> nat \<times> nat \<times> pystr list) \<times> Module)" where
  "parse_dylink_section_run wasm_file =
     bindE (Module_init wasm_file) (\<lambda>module.
       case sections module of
         [] \<Rightarrow> Inl IndexError
       | dylink_section # _ \<Rightarrow>
           if type_s dylink_section \<noteq> SecType_value CUSTOM then Inl AssertionError
           else
             let section_size = size_s dylink_section;
                 section_offset = offset_s dylink_section;
                 section_end = section_offset + section_size
             in
             bindE (Module_readString (Module_seek module section_offset)) (\<lambda>(section_name, m1).
               if section_name \<noteq> str_lit ''dylink'' then Inl AssertionError
               else
                 bindE (Module_readULEB m1) (\<lambda>(mem_size, m2).
                 bindE (Module_readULEB m2) (\<lambda>(mem_align, m3).
                 bindE (Module_readULEB m3) (\<lambda>(table_size, m4).
                 bindE (Module_readULEB m4) (\<lambda>(table_align, m5).
                 bindE (Module_readULEB m5) (\<lambda>(needed_count, m6).
                 bindE (read_needed needed_count m6 []) (\<lambda>(needed, m7).
                   Inr ((mem_size, mem_align, table_size, table_align, section_end, needed),
                        m7)))))))))"

definition parse_dylink_section ::
  "bytes \<Rightarrow> error + (nat \<times> nat \<times> nat \<times> nat \<times> nat \<times> pystr list)" where
  "parse_dylink_section wasm_file =
     bindE (parse_dylink_section_run wasm_file) (\<lambda>(result, m). Inr result)"

text \<open>The \<open>for dyn_needed in needed\<close> loop of \<open>update_dylink_section\<close>.\<close>

fun append_needed :: "pystr list \<Rightarrow> bytes \<Rightarrow> error + bytes" where
  "append_needed [] contents = Inr contents"
| "append_needed (dyn_needed # rest) contents =
     bindE (encode_utf8 dyn_needed) (\<lambda>encoded.
       append_needed rest (contents @ toLEB (length encoded) @ encoded))"

text \<open>
  \<open>update_dylink_section\<close>: the argument is the contents of the file, the result
  the contents written back. Nothing is written when an exception is raised, since
  the file is opened for writing only after the last fallible step.
\<close>

definition update_dylink_section :: "bytes \<Rightarrow> pystr list \<Rightarrow> error + bytes" where
  "update_dylink_section wasm_file extra_dynlibs =
     bindE (parse_dylink_section wasm_file)
       (\<lambda>(mem_size, mem_align, table_size, table_align, section_end, needed).
          let section_name = 6 # bytes_lit ''dylink'';
              contents = toLEB mem_size @ toLEB mem_align @ toLEB table_size @ toLEB 0;
              needed = needed @ extra_dynlibs;
              contents = contents @ toLEB (length needed)
          in bindE (append_needed needed contents) (\<lambda>contents.
               let orig = wasm_file;
                   file_header = take 8 orig;
                   file_remainder = drop section_end orig;
                   section_size = length section_name + length contents
               in Inr (file_header @ [0] @ toLEB section_size @ section_name @ contents
                       @ file_remainder)))"

section \<open>The import section\<close>

text \<open>The \<open>for i in range(num_imports)\<close> loop of \<open>get_imports\<close>.\<close>

fun read_imports :: "nat \<Rightarrow> Module \<Rightarrow> Import list \<Rightarrow> error + Import list" where
  "read_imports 0 m imports = Inr imports"
| "read_imports (Suc n) m imports =
     bindE (Module_readString m) (\<lambda>(mod_name, m1).
     bindE (Module_readString m1) (\<lambda>(field_name, m2).
     bindE (Module_readByte m2) (\<lambda>(kind_byte, m3).
     bindE (ExternType_of kind_byte) (\<lambda>kind.
       let imports = imports @ [\<lparr>type_i = kind, mod_i = mod_name, field_i = field_name\<rparr>]
       in case kind of
            FUNC \<Rightarrow>
              bindE (Module_readULEB m3) (\<lambda>(sig, m4). read_imports n m4 imports)
          | GLOBAL_x \<Rightarrow>
              bindE (Module_readSLEB m3) (\<lambda>(global_type, m4).
              bindE (Module_readByte m4) (\<lambda>(mutable, m5). read_imports n m5 imports))
          | MEMORY_x \<Rightarrow>
              bindE (Module_readLimits m3) (\<lambda>(lim, m4). read_imports n m4 imports)
          | TABLE_x \<Rightarrow>
              bindE (Module_readSLEB m3) (\<lambda>(table_type, m4).
              bindE (Module_readLimits m4) (\<lambda>(lim, m5). read_imports n m5 imports))
          | EVENT_x \<Rightarrow> Inl AssertionError))))"

definition get_imports :: "bytes \<Rightarrow> error + Import list" where
  "get_imports wasm_file =
     bindE (Module_init wasm_file) (\<lambda>module.
       case section_map module (SecType_value IMPORT) of
         None \<Rightarrow> Inr []
       | Some import_section \<Rightarrow>
           bindE (Module_readULEB (Module_seek module (offset_s import_section)))
             (\<lambda>(num_imports, m1). read_imports num_imports m1 []))"

section \<open>The emscripten metadata section\<close>

text \<open>
  \<open>shared.Settings\<close> is a global object of the process, defined outside this
  module; \<open>add_emscripten_metadata\<close> reads three of its attributes. The record is
  extensible: its \<open>more\<close> part stands for every other setting of the process.
\<close>

record Settings =
  INITIAL_MEMORY :: nat
  GLOBAL_BASE :: nat
  STANDALONE_WASM :: nat

definition EMSCRIPTEN_METADATA_MAJOR :: nat where "EMSCRIPTEN_METADATA_MAJOR = 0"
definition EMSCRIPTEN_METADATA_MINOR :: nat where "EMSCRIPTEN_METADATA_MINOR = 3"
definition EMSCRIPTEN_ABI_MAJOR :: nat where "EMSCRIPTEN_ABI_MAJOR = 0"
definition EMSCRIPTEN_ABI_MINOR :: nat where "EMSCRIPTEN_ABI_MINOR = 29"
definition WASM_PAGE_SIZE :: nat where "WASM_PAGE_SIZE = 65536"

definition add_emscripten_metadata :: "'a Settings_scheme \<Rightarrow> bytes \<Rightarrow> bytes" where
  "add_emscripten_metadata shared_Settings wasm_file =
     (let mem_size = INITIAL_MEMORY shared_Settings div WASM_PAGE_SIZE;
          global_base = GLOBAL_BASE shared_Settings;
          name = 19 # bytes_lit ''emscripten_metadata'';
          contents =
            toLEB EMSCRIPTEN_METADATA_MAJOR @
            toLEB EMSCRIPTEN_METADATA_MINOR @
            toLEB EMSCRIPTEN_ABI_MAJOR @
            toLEB EMSCRIPTEN_ABI_MINOR @
            toLEB 1 @
            toLEB mem_size @
            toLEB 0 @
            toLEB global_base @
            toLEB 0 @
            toLEB 0 @
            toLEB 0 @
            toLEB (STANDALONE_WASM shared_Settings);
          orig = wasm_file;
          size = length name + length contents
      in take 8 orig @ [0] @ toLEB size @ name @ contents @ drop 8 orig)"

section \<open>Inputs used by the closed theorems\<close>

text \<open>
  A module whose dylink section declares 12 bytes (the name, four varints and a count
  of 1) and is followed by a section of type 1 with a one-byte payload.
\<close>

definition short_dylink_file :: bytes where
  "short_dylink_file =
     [0, 97, 115, 109, 1, 0, 0, 0,
      0, 12, 6, 100, 121, 108, 105, 110, 107, 16, 4, 8, 4, 1,
      1, 1, 97]"


text \<open>Two states of the process that differ in \<open>shared.Settings\<close>.\<close>

definition settings_16M :: Settings where
  "settings_16M = \<lparr>INITIAL_MEMORY = 16777216, GLOBAL_BASE = 1024, STANDALONE_WASM = 0\<rparr>"

definition settings_32M :: Settings where
  "settings_32M = \<lparr>INITIAL_MEMORY = 33554432, GLOBAL_BASE = 1024, STANDALONE_WASM = 0\<rparr>"

definition empty_module_file :: bytes where
  "empty_module_file = [0, 97, 115, 109, 1, 0, 0, 0]"

section \<open>The section frames of a file\<close>

text \<open>
  \<open>frames d p secs q\<close>: read from position \<open>p\<close> of the file \<open>d\<close>, the records
  \<open>secs\<close> are consecutive section frames (a type byte, a size varint, then the payload
  of that size, whose start is the offset of the record), and the last of them ends at
  \<open>q\<close>.
\<close>

fun frames :: "bytes \<Rightarrow> nat \<Rightarrow> Section list \<Rightarrow> nat \<Rightarrow> bool" where
  "frames d p [] q = (p = q)"
| "frames d p (s # ss) q =
     (p < length d \<and> type_s s = d ! p
      \<and> readULEB (d, Suc p) = Inr (size_s s, (d, offset_s s))
      \<and> frames d (offset_s s + size_s s) ss q)"

definition non_custom :: "Section list \<Rightarrow> Section list" where
  "non_custom secs = filter (\<lambda>s. type_s s \<noteq> SecType_value CUSTOM) secs"

definition wasm_header :: bytes where
  "wasm_header = [0, 97, 115, 109, 1, 0, 0, 0]"

text \<open>The module object as \<open>__init__\<close> has it when it calls \<open>readSectionHeaders\<close>.\<close>

definition after_header :: "bytes \<Rightarrow> Module" where
  "after_header file =
     \<lparr>size_m = length file, buf = (file, 8), sections = [], section_map = Map.empty\<rparr>"

text \<open>A section of type 1 that declares 5 bytes in a file that has one byte left.\<close>

definition overshoot_file :: bytes where
  "overshoot_file = [0, 97, 115, 109, 1, 0, 0, 0, 1, 5, 0]"

text \<open>Two custom sections, and two sections of type 1.\<close>

definition two_custom_file :: bytes where
  "two_custom_file = [0, 97, 115, 109, 1, 0, 0, 0, 0, 1, 7, 0, 2, 7, 7]"

definition two_type_file :: bytes where
  "two_type_file = [0, 97, 115, 109, 1, 0, 0, 0, 1, 1, 7, 1, 2, 7, 7]"

section \<open>Encoded values, as a reader meets them\<close>

text \<open>
  \<open>reads r enc v\<close>: wherever the stream continues with the bytes \<open>enc\<close>, the reader
  \<open>r\<close> returns \<open>v\<close> and stops right after them.
\<close>

definition reads :: "(Module \<Rightarrow> error + ('a \<times> Module)) \<Rightarrow> bytes \<Rightarrow> 'a \<Rightarrow> bool" where
  "reads r enc v =
     (\<forall>m d p rest. buf m = (d, p) \<and> drop p d = enc @ rest
        \<longrightarrow> r m = Inr (v, m\<lparr>buf := (d, p + length enc)\<rparr>))"

text \<open>A varint, minimal or not: continuation bit on every byte but the last.\<close>

definition is_varint :: "bytes \<Rightarrow> bool" where
  "is_varint a = (a \<noteq> [] \<and> (\<forall>b \<in> set (butlast a). 128 \<le> unat b) \<and> unat (last a) < 128)"

definition length_prefixed :: "bytes \<Rightarrow> bytes" where
  "length_prefixed b = toLEB (length b) @ b"

text \<open>
  The entries of an import section that \<open>get_imports\<close> has a branch for, with what
  follows the kind byte: a function's type index; a table's element type (a signed
  varint, given by its bytes) and limits; a memory's limits; a global's value type (a
  signed varint) and mutability byte.
\<close>

datatype import_desc =
    FuncDesc nat
  | TableDesc bytes Limits
  | MemoryDesc Limits
  | GlobalDesc bytes byte

fun kind_of :: "import_desc \<Rightarrow> ExternType" where
  "kind_of (FuncDesc _) = FUNC"
| "kind_of (TableDesc _ _) = TABLE_x"
| "kind_of (MemoryDesc _) = MEMORY_x"
| "kind_of (GlobalDesc _ _) = GLOBAL_x"

fun kind_byte :: "ExternType \<Rightarrow> byte" where
  "kind_byte FUNC = 0"
| "kind_byte TABLE_x = 1"
| "kind_byte MEMORY_x = 2"
| "kind_byte GLOBAL_x = 3"
| "kind_byte EVENT_x = 4"

definition limits_bytes :: "Limits \<Rightarrow> bytes" where
  "limits_bytes l =
     flags l # toLEB (initial l) @ (if flags l AND 1 \<noteq> 0 then toLEB (maximum l) else [])"

fun desc_bytes :: "import_desc \<Rightarrow> bytes option" where
  "desc_bytes (FuncDesc sig) = Some (toLEB sig)"
| "desc_bytes (TableDesc table_type l) =
     (if is_varint table_type then Some (table_type @ limits_bytes l) else None)"
| "desc_bytes (MemoryDesc l) = Some (limits_bytes l)"
| "desc_bytes (GlobalDesc global_type mutable) =
     (if is_varint global_type then Some (global_type @ [mutable]) else None)"

type_synonym import_entry = "pystr \<times> pystr \<times> import_desc"

fun entry_bytes :: "import_entry \<Rightarrow> bytes option" where
  "entry_bytes (mod_name, field_name, desc) =
     (case (utf8_encode mod_name, utf8_encode field_name, desc_bytes desc) of
        (Some mb, Some fb, Some pb) \<Rightarrow>
          Some (length_prefixed mb @ length_prefixed fb @ [kind_byte (kind_of desc)] @ pb)
      | _ \<Rightarrow> None)"

fun entries_bytes :: "import_entry list \<Rightarrow> bytes option" where
  "entries_bytes [] = Some []"
| "entries_bytes (e # es) =
     (case entry_bytes e of
        None \<Rightarrow> None
      | Some b \<Rightarrow> map_option ((@) b) (entries_bytes es))"

definition import_section_bytes :: "import_entry list \<Rightarrow> bytes option" where
  "import_section_bytes entries =
     map_option ((@) (toLEB (length entries))) (entries_bytes entries)"

fun import_of :: "import_entry \<Rightarrow> Import" where
  "import_of (mod_name, field_name, desc) =
     \<lparr>type_i = kind_of desc, mod_i = mod_name, field_i = field_name\<rparr>"

text \<open>
  An import section with one entry of kind Event (kind byte 4, then an attribute byte
  and a type index), and one with an entry of kind byte 99.
\<close>

definition event_import_file :: bytes where
  "event_import_file =
     [0, 97, 115, 109, 1, 0, 0, 0,
      2, 10, 1, 3, 101, 110, 118, 1, 101, 4, 0, 0]"

definition bad_kind_import_file :: bytes where
  "bad_kind_import_file =
     [0, 97, 115, 109, 1, 0, 0, 0,
      2, 10, 1, 3, 101, 110, 118, 1, 101, 99, 0, 0]"

text \<open>One entry each of kind Function, Global, Memory and Table, in that order.\<close>

definition four_imports :: "import_entry list" where
  "four_imports =
     [(str_lit ''env'', str_lit ''f'', FuncDesc 0),
      (str_lit ''env'', str_lit ''g'', GlobalDesc [127] 0),
      (str_lit ''env'', str_lit ''m'', MemoryDesc \<lparr>flags = 1, initial = 1, maximum = 2\<rparr>),
      (str_lit ''env'', str_lit ''t'', TableDesc [112] \<lparr>flags = 0, initial = 1, maximum = 0\<rparr>)]"

definition four_imports_file :: bytes where
  "four_imports_file =
     [0, 97, 115, 109, 1, 0, 0, 0,
      2, 38, 4,
      3, 101, 110, 118, 1, 102, 0, 0,
      3, 101, 110, 118, 1, 103, 3, 127, 0,
      3, 101, 110, 118, 1, 109, 2, 1, 1, 2,
      3, 101, 110, 118, 1, 116, 1, 112, 0, 1]"

section \<open>Sections of a rewritten file\<close>

text \<open>
  A section of the original file, as it is found in the rewritten one: the offset
  moves by the difference between the position \<open>new\<close> in the rewritten file and the
  position \<open>old\<close> in the original it corresponds to.
\<close>

definition shift_section :: "nat \<Rightarrow> nat \<Rightarrow> Section \<Rightarrow> Section" where
  "shift_section old new s = s\<lparr>offset_s := offset_s s + new - old\<rparr>"



section \<open>Basic facts about the readers\<close>

lemma bindE_Inl [simp]: "bindE (Inl e) f = Inl e"
  by (simp add: bindE_def)

lemma bindE_Inr [simp]: "bindE (Inr x) f = f x"
  by (simp add: bindE_def)

lemma bindE_eq_Inr: "bindE r f = Inr y \<longleftrightarrow> (\<exists>x. r = Inr x \<and> f x = Inr y)"
  by (cases r) simp_all

lemma unat_byte_of_nat: "n < 256 \<Longrightarrow> unat (of_nat n :: byte) = n"
  by (simp add: unat_of_nat)

lemma leb128_take_encode: "leb128_take (leb128_u_encode n @ rest) = Some (leb128_u_encode n)"
proof (induction n rule: leb128_u_encode.induct)
  case (1 n)
  show ?case
  proof (cases "n < 128")
    case True
    then show ?thesis
      by (simp add: leb128_u_encode.simps [of n] unat_byte_of_nat)
  next
    case False
    have "unat (of_nat (n mod 128 + 128) :: byte) = n mod 128 + 128"
      by (rule unat_byte_of_nat) simp
    with False 1 show ?thesis
      by (simp add: leb128_u_encode.simps [of n])
  qed
qed

lemma leb128_decode_encode: "leb128_u_decode (leb128_u_encode n) = n"
proof (induction n rule: leb128_u_encode.induct)
  case (1 n)
  show ?case
  proof (cases "n < 128")
    case True
    then show ?thesis
      by (simp add: leb128_u_encode.simps [of n] unat_byte_of_nat)
  next
    case False
    have "unat (of_nat (n mod 128 + 128) :: byte) = n mod 128 + 128"
      by (rule unat_byte_of_nat) simp
    with False 1 show ?thesis
      by (simp add: leb128_u_encode.simps [of n])
  qed
qed

lemma readULEB_toLEB:
  "drop p d = toLEB n @ rest \<Longrightarrow> readULEB (d, p) = Inr (n, (d, p + length (toLEB n)))"
  by (simp add: readULEB_def toLEB_def leb128_take_encode leb128_decode_encode)

lemma Module_readULEB_toLEB:
  "buf m = (d, p) \<Longrightarrow> drop p d = toLEB n @ rest \<Longrightarrow>
   Module_readULEB m = Inr (n, m\<lparr>buf := (d, p + length (toLEB n))\<rparr>)"
  by (simp add: Module_readULEB_def readULEB_toLEB)

lemma drop_past: "drop p d = a @ rest \<Longrightarrow> drop (p + length a) d = rest"
  by (metis add.commute append_eq_conv_conj drop_drop)

section \<open>UTF-8: decoding inverts encoding\<close>

lemma recombine:
  fixes c :: nat
  assumes "A * 64 + B = Q" "c = Q * k + M"
  shows "A * (64 * k) + B * k + M = c"
proof -
  have "A * (64 * k) + B * k = (A * 64 + B) * k" by (simp add: algebra_simps)
  with assms show ?thesis by simp
qed

lemma split3: "(c::nat) div 4096 * 4096 + c div 64 mod 64 * 64 + c mod 64 = c"
proof -
  have h: "c div 4096 = c div 64 div 64" by (simp add: div_mult2_eq)
  have "c div 64 div 64 * (64 * 64) + c div 64 mod 64 * 64 + c mod 64 = c"
    by (rule recombine [where Q = "c div 64"]) simp_all
  with h show ?thesis by simp
qed

lemma split4:
  "(c::nat) div 262144 * 262144 + c div 4096 mod 64 * 4096 + c div 64 mod 64 * 64 + c mod 64 = c"
proof -
  have h: "c div 262144 = c div 4096 div 64" by (simp add: div_mult2_eq)
  have "c div 4096 * 4096 + (c div 64 mod 64 * 64 + c mod 64) = c"
    using split3 [of c] by simp
  then have "c = c div 4096 * 4096 + (c div 64 mod 64 * 64 + c mod 64)" by simp
  then have "c div 4096 div 64 * (64 * 4096) + c div 4096 mod 64 * 4096
      + (c div 64 mod 64 * 64 + c mod 64) = c"
    by (intro recombine [where Q = "c div 4096"]) simp_all
  with h show ?thesis by simp
qed

lemma utf8_seq1:
  assumes "unat b0 = c" "c < 128"
  shows "utf8_decode (b0 # rest) = map_option ((#) c) (utf8_decode rest)"
  using assms by simp

lemma utf8_seq2:
  assumes "unat b0 = 192 + c div 64" "unat b1 = 128 + c mod 64" "128 \<le> c" "c < 2048"
  shows "utf8_decode (b0 # b1 # rest) = map_option ((#) c) (utf8_decode rest)"
proof -
  have r: "194 \<le> 192 + c div 64" "192 + c div 64 < 224" using assms by simp_all
  have v: "c div 64 * 64 + c mod 64 = c" by simp
  show ?thesis using r assms(1,2) by (simp add: is_cont_def v)
qed

lemma utf8_seq3:
  assumes "unat b0 = 224 + c div 4096" "unat b1 = 128 + c div 64 mod 64"
    "unat b2 = 128 + c mod 64"
    "2048 \<le> c" "c < 65536" "\<not> (55296 \<le> c \<and> c < 57344)"
  shows "utf8_decode (b0 # b1 # b2 # rest) = map_option ((#) c) (utf8_decode rest)"
proof -
  have r: "224 \<le> 224 + c div 4096" "224 + c div 4096 < 240" using assms by simp_all
  note v = split3 [of c]
  show ?thesis using r assms by (simp add: is_cont_def v)
qed

lemma utf8_seq4:
  assumes "unat b0 = 240 + c div 262144" "unat b1 = 128 + c div 4096 mod 64"
    "unat b2 = 128 + c div 64 mod 64" "unat b3 = 128 + c mod 64"
    "65536 \<le> c" "c < 1114112"
  shows "utf8_decode (b0 # b1 # b2 # b3 # rest) = map_option ((#) c) (utf8_decode rest)"
proof -
  have r: "240 \<le> 240 + c div 262144" "240 + c div 262144 < 245" using assms by simp_all
  note v = split4 [of c]
  show ?thesis using r assms by (simp add: is_cont_def v)
qed

lemma utf8_decode_encode_cp:
  assumes "utf8_encode_cp c = Some e"
  shows "utf8_decode (e @ rest) = map_option ((#) c) (utf8_decode rest)"
proof -
  consider (a) "c < 128" | (b) "128 \<le> c" "c < 2048"
    | (c) "2048 \<le> c" "c < 65536" "\<not> (55296 \<le> c \<and> c < 57344)"
    | (d) "65536 \<le> c" "c < 1114112"
    using assms by (fastforce simp: utf8_encode_cp_def split: if_splits)
  then show ?thesis
  proof cases
    case a
    with assms have e: "e = [of_nat c]" by (simp add: utf8_encode_cp_def)
    have "unat (of_nat c :: byte) = c" using a by (intro unat_byte_of_nat) simp
    from utf8_seq1 [OF this a] e show ?thesis by simp
  next
    case b
    with assms have e: "e = [of_nat (192 + c div 64), of_nat (128 + c mod 64)]"
      by (simp add: utf8_encode_cp_def)
    have b0: "unat (of_nat (192 + c div 64) :: byte) = 192 + c div 64"
      using b by (intro unat_byte_of_nat) simp
    have b1: "unat (of_nat (128 + c mod 64) :: byte) = 128 + c mod 64"
      by (intro unat_byte_of_nat) simp
    from utf8_seq2 [OF b0 b1 b] e show ?thesis by simp
  next
    case c
    with assms have e: "e = [of_nat (224 + c div 4096), of_nat (128 + c div 64 mod 64),
        of_nat (128 + c mod 64)]"
      by (simp add: utf8_encode_cp_def)
    have b0: "unat (of_nat (224 + c div 4096) :: byte) = 224 + c div 4096"
      using c by (intro unat_byte_of_nat) simp
    have b1: "unat (of_nat (128 + c div 64 mod 64) :: byte) = 128 + c div 64 mod 64"
      by (intro unat_byte_of_nat) simp
    have b2: "unat (of_nat (128 + c mod 64) :: byte) = 128 + c mod 64"
      by (intro unat_byte_of_nat) simp
    from utf8_seq3 [OF b0 b1 b2 c] e show ?thesis by simp
  next
    case d
    with assms have e: "e = [of_nat (240 + c div 262144), of_nat (128 + c div 4096 mod 64),
        of_nat (128 + c div 64 mod 64), of_nat (128 + c mod 64)]"
      by (simp add: utf8_encode_cp_def)
    have b0: "unat (of_nat (240 + c div 262144) :: byte) = 240 + c div 262144"
      using d by (intro unat_byte_of_nat) simp
    have b1: "unat (of_nat (128 + c div 4096 mod 64) :: byte) = 128 + c div 4096 mod 64"
      by (intro unat_byte_of_nat) simp
    have b2: "unat (of_nat (128 + c div 64 mod 64) :: byte) = 128 + c div 64 mod 64"
      by (intro unat_byte_of_nat) simp
    have b3: "unat (of_nat (128 + c mod 64) :: byte) = 128 + c mod 64"
      by (intro unat_byte_of_nat) simp
    from utf8_seq4 [OF b0 b1 b2 b3 d] e show ?thesis by simp
  qed
qed

lemma utf8_decode_encode:
  "utf8_encode s = Some bs \<Longrightarrow> utf8_decode bs = Some s"
proof (induction s arbitrary: bs)
  case Nil
  then show ?case by simp
next
  case (Cons c cs)
  then obtain e t where e: "utf8_encode_cp c = Some e" and t: "utf8_encode cs = Some t"
    and bs: "bs = e @ t"
    by (auto split: option.splits)
  from Cons.IH [OF t] utf8_decode_encode_cp [OF e, of t] bs show ?case by simp
qed

section \<open>UTF-8: what decodes can be encoded again\<close>










section \<open>What a successful parse and a successful update have done\<close>

lemma parse_dylink_section_run_Inr:
  assumes "parse_dylink_section_run f = Inr ((ms, ma, ts, ta, se, needed), mf)"
  shows "\<exists>m sec rest m1 m2 m3 m4 m5 m6 cnt.
           Module_init f = Inr m \<and> sections m = sec # rest \<and> type_s sec = 0
         \<and> se = offset_s sec + size_s sec
         \<and> Module_readString (Module_seek m (offset_s sec)) = Inr (str_lit ''dylink'', m1)
         \<and> Module_readULEB m1 = Inr (ms, m2)
         \<and> Module_readULEB m2 = Inr (ma, m3)
         \<and> Module_readULEB m3 = Inr (ts, m4)
         \<and> Module_readULEB m4 = Inr (ta, m5)
         \<and> Module_readULEB m5 = Inr (cnt, m6)
         \<and> read_needed cnt m6 [] = Inr (needed, mf)"
proof -
  from assms obtain m where mi: "Module_init f = Inr m"
    by (auto simp: parse_dylink_section_run_def bindE_eq_Inr)
  show ?thesis
  proof (cases "sections m")
    case Nil
    with assms mi show ?thesis by (simp add: parse_dylink_section_run_def)
  next
    case (Cons sec rest)
    with assms mi show ?thesis
      by (auto simp: parse_dylink_section_run_def bindE_eq_Inr Let_def split: if_splits)
  qed
qed

lemma parse_dylink_section_Inr:
  assumes "parse_dylink_section f = Inr (ms, ma, ts, ta, se, needed)"
  shows "\<exists>m sec rest. Module_init f = Inr m \<and> sections m = sec # rest \<and> type_s sec = 0
         \<and> se = offset_s sec + size_s sec"
proof -
  from assms obtain mf where "parse_dylink_section_run f = Inr ((ms, ma, ts, ta, se, needed), mf)"
    by (auto simp: parse_dylink_section_def bindE_eq_Inr)
  from parse_dylink_section_run_Inr [OF this] show ?thesis by blast
qed

lemma update_dylink_section_Inr:
  assumes "update_dylink_section f extra = Inr out"
  shows "\<exists>ms ma ts ta se needed contents.
           parse_dylink_section f = Inr (ms, ma, ts, ta, se, needed)
         \<and> append_needed (needed @ extra)
              (toLEB ms @ toLEB ma @ toLEB ts @ toLEB 0 @ toLEB (length (needed @ extra)))
             = Inr contents
         \<and> out = take 8 f @ [0] @ toLEB (7 + length contents) @ (6 # bytes_lit ''dylink'')
                 @ contents @ drop se f"
  using assms unfolding update_dylink_section_def
  by (auto simp: bindE_eq_Inr Let_def bytes_lit_def eval_nat_numeral)

section \<open>The metadata section\<close>

lemma toLEB_small: "n < 128 \<Longrightarrow> toLEB n = [of_nat n]"
  by (simp add: toLEB_def leb128_u_encode.simps [of n])

text \<open>
  C3. After \<open>add_emscripten_metadata\<close> the file is: the first 8 bytes of the original,
  the byte 0, the varint of the length of name and payload together, the length-prefixed
  name "emscripten_metadata", the twelve varints metadata major, metadata minor, ABI
  major, ABI minor, 1, INITIAL_MEMORY div 65536, 0, GLOBAL_BASE, 0, 0, 0,
  STANDALONE_WASM, and then the original from offset 8 on.
\<close>

theorem metadata_section_layout:
  "\<exists>name_bytes name payload.
      utf8_encode (str_lit ''emscripten_metadata'') = Some name_bytes
    \<and> name = toLEB (length name_bytes) @ name_bytes
    \<and> payload = concat (map toLEB
         [EMSCRIPTEN_METADATA_MAJOR, EMSCRIPTEN_METADATA_MINOR,
          EMSCRIPTEN_ABI_MAJOR, EMSCRIPTEN_ABI_MINOR,
          1, INITIAL_MEMORY S div 65536, 0, GLOBAL_BASE S, 0, 0, 0, STANDALONE_WASM S])
    \<and> add_emscripten_metadata S orig
        = take 8 orig @ [0] @ toLEB (length name + length payload) @ name @ payload
          @ drop 8 orig"
proof -
  have n: "utf8_encode (str_lit ''emscripten_metadata'') = Some (bytes_lit ''emscripten_metadata'')"
    by code_simp
  have l: "toLEB (length (bytes_lit ''emscripten_metadata'')) = [19]"
    by (simp add: bytes_lit_def toLEB_small)
  show ?thesis
    unfolding n
    by (simp add: l add_emscripten_metadata_def Let_def WASM_PAGE_SIZE_def)
qed

section \<open>Evaluating the encoder on numerals\<close>

lemma leb128_u_encode_numeral:
  "leb128_u_encode (numeral k) =
     (if (numeral k :: nat) < 128 then [of_nat (numeral k)]
      else of_nat (numeral k mod 128 + 128) # leb128_u_encode (numeral k div 128))"
  by (rule leb128_u_encode.simps)

lemma leb128_u_encode_0: "leb128_u_encode 0 = [0]"
  by (simp add: leb128_u_encode.simps [of 0])

lemma leb128_u_encode_1: "leb128_u_encode (Suc 0) = [1]"
  by (simp add: leb128_u_encode.simps [of "Suc 0"])

lemmas toLEB_eval = toLEB_def leb128_u_encode_numeral leb128_u_encode_0 leb128_u_encode_1

section \<open>Where the metadata writer takes its configuration from\<close>

text \<open>
  C4, as stated: the bytes written depend only on the file and on what the caller
  passes. The function's only argument is the file; the configuration is read from the
  global \<open>shared.Settings\<close>, and two processes that differ there write different
  bytes for the same file.
\<close>

theorem metadata_reads_global_settings:
  "add_emscripten_metadata settings_16M empty_module_file
   \<noteq> add_emscripten_metadata settings_32M empty_module_file"
  by (simp add: add_emscripten_metadata_def settings_16M_def settings_32M_def
      WASM_PAGE_SIZE_def Let_def toLEB_eval)

text \<open>
  C4, amended: of the state of the process, the bytes written depend on the three
  attributes INITIAL_MEMORY, GLOBAL_BASE and STANDALONE_WASM of \<open>shared.Settings\<close> only:
  two runs on the same file bytes that agree on these three write the same bytes,
  whatever else differs.
\<close>

theorem metadata_depends_on_three_settings:
  fixes S1 :: "'a Settings_scheme" and S2 :: "'b Settings_scheme"
  assumes "INITIAL_MEMORY S1 = INITIAL_MEMORY S2"
    and "GLOBAL_BASE S1 = GLOBAL_BASE S2"
    and "STANDALONE_WASM S1 = STANDALONE_WASM S2"
  shows "add_emscripten_metadata S1 orig = add_emscripten_metadata S2 orig"
  using assms by (simp add: add_emscripten_metadata_def)

theorem metadata_depends_on_three_settings_witness:
  "add_emscripten_metadata
     \<lparr>INITIAL_MEMORY = 65536, GLOBAL_BASE = 8, STANDALONE_WASM = 1, \<dots> = True\<rparr>
     empty_module_file
   = add_emscripten_metadata
     \<lparr>INITIAL_MEMORY = 65536, GLOBAL_BASE = 8, STANDALONE_WASM = 1, \<dots> = [0::nat]\<rparr>
     empty_module_file"
  using metadata_depends_on_three_settings
    [of "\<lparr>INITIAL_MEMORY = 65536, GLOBAL_BASE = 8, STANDALONE_WASM = 1, \<dots> = True\<rparr>"
        "\<lparr>INITIAL_MEMORY = 65536, GLOBAL_BASE = 8, STANDALONE_WASM = 1, \<dots> = [0::nat]\<rparr>"
        empty_module_file]
  by simp

section \<open>Reading a string\<close>




section \<open>The rewrites keep the rest of the file\<close>

text \<open>
  C8. When \<open>update_dylink_section\<close> succeeds, the output ends with the bytes of the
  original file from the end offset of its first (dylink) section to its end; the output
  of \<open>add_emscripten_metadata\<close> ends with the bytes of the original from offset 8.
\<close>

theorem rewrites_preserve_remainder:
  "(update_dylink_section f extra = Inr out \<longrightarrow>
      (\<exists>m sec rest pre. Module_init f = Inr m \<and> sections m = sec # rest
         \<and> out = pre @ drop (offset_s sec + size_s sec) f))
   \<and> (\<exists>pre. add_emscripten_metadata S f = pre @ drop 8 f)"
proof (intro conjI impI)
  assume "update_dylink_section f extra = Inr out"
  from update_dylink_section_Inr [OF this] obtain ms ma ts ta se needed contents where
    p: "parse_dylink_section f = Inr (ms, ma, ts, ta, se, needed)" and
    out: "out = take 8 f @ [0] @ toLEB (7 + length contents) @ (6 # bytes_lit ''dylink'')
                 @ contents @ drop se f"
    by blast
  from parse_dylink_section_Inr [OF p] obtain m sec rest where
    "Module_init f = Inr m" "sections m = sec # rest" "se = offset_s sec + size_s sec"
    by blast
  with out show "\<exists>m sec rest pre. Module_init f = Inr m \<and> sections m = sec # rest
         \<and> out = pre @ drop (offset_s sec + size_s sec) f"
    by (metis append_assoc)
next
  show "\<exists>pre. add_emscripten_metadata S f = pre @ drop 8 f"
    unfolding add_emscripten_metadata_def Let_def by (metis append_assoc)
qed

theorem rewrites_preserve_remainder_witness:
  "update_dylink_section short_dylink_file [[98]]
     = Inr [0, 97, 115, 109, 1, 0, 0, 0, 0, 16, 6, 100, 121, 108, 105, 110, 107,
            16, 4, 8, 0, 2, 1, 1, 1, 98, 1, 1, 97]
   \<and> (\<exists>m sec rest pre. Module_init short_dylink_file = Inr m \<and> sections m = sec # rest
         \<and> [0, 97, 115, 109, 1, 0, 0, 0, 0, 16, 6, 100, 121, 108, 105, 110, 107,
            16, 4, 8, 0, 2, 1, 1, 1, 98, 1, 1, 97]
           = pre @ drop (offset_s sec + size_s sec) short_dylink_file)"
proof -
  have h: "update_dylink_section short_dylink_file [[98]]
     = Inr [0, 97, 115, 109, 1, 0, 0, 0, 0, 16, 6, 100, 121, 108, 105, 110, 107,
            16, 4, 8, 0, 2, 1, 1, 1, 98, 1, 1, 97]"
    by code_simp
  from rewrites_preserve_remainder [of short_dylink_file "[[98]]" _ settings_16M] h
  show ?thesis by blast
qed

section \<open>The dylink parse and the declared section size\<close>

text \<open>
  C10. The section end that \<open>parse_dylink_section\<close> returns is the offset of the first
  section plus its declared size, and the reads are not checked against it: in
  \<open>short_dylink_file\<close> the dylink section ends at offset 22, after its count of 1; the
  parse takes the name from the header bytes of the section that follows, stops at
  offset 24 and returns without an error.
\<close>

theorem dylink_parse_not_bounded_by_section:
  "(parse_dylink_section f = Inr (ms, ma, ts, ta, se, needed) \<longrightarrow>
      (\<exists>m sec rest. Module_init f = Inr m \<and> sections m = sec # rest
         \<and> se = offset_s sec + size_s sec))
   \<and> parse_dylink_section short_dylink_file = Inr (16, 4, 8, 4, 22, [[1]])
   \<and> map_sum id (\<lambda>(r, m). snd (buf m)) (parse_dylink_section_run short_dylink_file) = Inr 24
   \<and> map_sum id (\<lambda>m. sections m) (Module_init short_dylink_file)
       = Inr [\<lparr>type_s = 0, size_s = 12, offset_s = 10\<rparr>,
              \<lparr>type_s = 1, size_s = 1, offset_s = 24\<rparr>]"
proof (intro conjI impI)
  assume "parse_dylink_section f = Inr (ms, ma, ts, ta, se, needed)"
  from parse_dylink_section_Inr [OF this]
  show "\<exists>m sec rest. Module_init f = Inr m \<and> sections m = sec # rest
         \<and> se = offset_s sec + size_s sec"
    by blast
next
  show "parse_dylink_section short_dylink_file = Inr (16, 4, 8, 4, 22, [[1]])"
    by code_simp
next
  show "map_sum id (\<lambda>(r, m). snd (buf m)) (parse_dylink_section_run short_dylink_file) = Inr 24"
    by code_simp
next
  show "map_sum id (\<lambda>m. sections m) (Module_init short_dylink_file)
       = Inr [\<lparr>type_s = 0, size_s = 12, offset_s = 10\<rparr>,
              \<lparr>type_s = 1, size_s = 1, offset_s = 24\<rparr>]"
    by code_simp
qed

theorem dylink_parse_not_bounded_by_section_witness:
  "parse_dylink_section short_dylink_file = Inr (16, 4, 8, 4, 22, [[1]])
   \<and> (\<exists>m sec rest. Module_init short_dylink_file = Inr m \<and> sections m = sec # rest
         \<and> 22 = offset_s sec + size_s sec)"
  using dylink_parse_not_bounded_by_section [of short_dylink_file 16 4 8 4 22 "[[1]]"]
  by blast

section \<open>The scan of the section headers\<close>

lemma frames_append:
  "frames d p (xs @ ys) q = (\<exists>r. frames d p xs r \<and> frames d r ys q)"
  by (induction xs arbitrary: p) auto

lemma drop_eq_Cons:
  assumes "drop p d = b # x"
  shows "p < length d" and "d ! p = b" and "drop (Suc p) d = x"
proof -
  from assms show lt: "p < length d" by (cases "p < length d") auto
  from Cons_nth_drop_Suc [OF lt] assms show "d ! p = b" and "drop (Suc p) d = x" by auto
qed

lemma readSectionHeaders_body_Inr:
  assumes "readSectionHeaders_body m = Inr m'" and "buf m = (d, p)"
  shows "\<exists>n off. p < length d \<and> readULEB (d, Suc p) = Inr (n, (d, off))
         \<and> buf m' = (d, off + n) \<and> size_m m' = size_m m
         \<and> sections m' = sections m @ [\<lparr>type_s = d ! p, size_s = n, offset_s = off\<rparr>]
         \<and> (if d ! p \<noteq> 0
             then d ! p \<notin> dom (section_map m)
                \<and> section_map m' = (section_map m)(d ! p \<mapsto>
                     \<lparr>type_s = d ! p, size_s = n, offset_s = off\<rparr>)
             else section_map m' = section_map m)"
proof -
  from assms(1) obtain b m1 where rb: "Module_readByte m = Inr (b, m1)"
    by (auto simp: readSectionHeaders_body_def bindE_eq_Inr)
  with assms(2) have lt: "p < length d" and b: "b = d ! p"
    and m1: "m1 = m\<lparr>buf := (d, Suc p)\<rparr>"
    by (auto simp: Module_readByte_drop split: list.splits dest: drop_eq_Cons)
  from assms(1) rb obtain n m2 where ru: "Module_readULEB m1 = Inr (n, m2)"
    by (auto simp: readSectionHeaders_body_def bindE_eq_Inr)
  with m1 obtain off where r: "readULEB (d, Suc p) = Inr (n, (d, off))"
    and m2: "m2 = m\<lparr>buf := (d, off)\<rparr>"
    by (auto simp: Module_readULEB_def bindE_eq_Inr readULEB_def split: option.splits)
  from assms(1) rb ru b m2 lt r show ?thesis
    by (auto simp: readSectionHeaders_body_def Let_def Module_seek_def io_seek_def io_tell_def
        split: if_splits)
qed

lemma Module_init_header:
  assumes "take 8 f = wasm_header"
  shows "Module_init f = Module_readSectionHeaders (after_header f)"
proof -
  have "take 4 f = take 4 (take 8 f)" by simp
  with assms have magic: "take 4 f = [0, 97, 115, 109]" by (simp add: wasm_header_def)
  have "take 4 (drop 4 f) = drop 4 (take 8 f)" by (simp add: drop_take)
  with assms have version: "take 4 (drop 4 f) = [1, 0, 0, 0]" by (simp add: wasm_header_def)
  have l4: "min (length f) 4 = 4"
    using arg_cong [OF magic, where f = length] by simp
  have l8: "min (length f - 4) 4 = 4"
    using arg_cong [OF version, where f = length] by simp
  show ?thesis
    by (simp add: Module_init_def io_read_def Let_def magic version l4 l8 bytes_lit_def
        after_header_def)
qed

lemma Module_init_Inr:
  assumes "Module_init f = Inr m"
  shows "take 8 f = wasm_header" and "Module_readSectionHeaders (after_header f) = Inr m"
proof -
  from assms have magic: "take 4 f = [0, 97, 115, 109]"
    by (auto simp: Module_init_def io_read_def Let_def bytes_lit_def split: if_splits)
  have l4: "min (length f) 4 = 4"
    using arg_cong [OF magic, where f = length] by simp
  from assms have version: "take 4 (drop 4 f) = [1, 0, 0, 0]"
    by (auto simp: Module_init_def io_read_def Let_def bytes_lit_def l4 split: if_splits)
  have "take 8 f = take 4 f @ take 4 (drop 4 f)"
    using take_add [of 4 4 f] by simp
  with magic version show h: "take 8 f = wasm_header" by (simp add: wasm_header_def)
  from Module_init_header [OF h] assms
  show "Module_readSectionHeaders (after_header f) = Inr m" by simp
qed

lemma readSectionHeaders_invariant:
  assumes "Module_readSectionHeaders m = Inr r" and "I m"
    and step: "\<And>m m'. I m \<Longrightarrow> io_tell (buf m) \<noteq> size_m m \<Longrightarrow>
                 readSectionHeaders_body m = Inr m' \<Longrightarrow> I m'"
  shows "I r \<and> io_tell (buf r) = size_m r"
  using assms(1,2)
proof (induction m rule: Module_readSectionHeaders.induct)
  case (1 m)
  show ?case
  proof (cases "io_tell (buf m) \<noteq> size_m m")
    case True
    with "1.prems"(1) obtain m' where b: "readSectionHeaders_body m = Inr m'"
      and r: "Module_readSectionHeaders m' = Inr r"
      by (auto simp: Module_readSectionHeaders.simps [of m] split: sum.splits)
    from step [OF "1.prems"(2) True b] have "I m'" .
    from "1.IH" [OF True b r this] show ?thesis .
  next
    case False
    with "1.prems" show ?thesis
      by (simp add: Module_readSectionHeaders.simps [of m])
  qed
qed

lemma scan_frames:
  assumes "Module_init f = Inr m"
  shows "frames f 8 (sections m) (length f)"
proof -
  define I where "I = (\<lambda>m::Module. fst (buf m) = f \<and> size_m m = length f
                        \<and> frames f 8 (sections m) (snd (buf m)))"
  have "I m \<and> io_tell (buf m) = size_m m"
  proof (rule readSectionHeaders_invariant [of "after_header f" m I])
    show "Module_readSectionHeaders (after_header f) = Inr m"
      by (rule Module_init_Inr(2) [OF assms])
    show "I (after_header f)" by (simp add: I_def after_header_def)
  next
    fix m m' :: Module
    assume i: "I m" and b: "readSectionHeaders_body m = Inr m'"
    from i have "buf m = (f, snd (buf m))" by (simp add: I_def prod_eq_iff)
    from readSectionHeaders_body_Inr [OF b this] i show "I m'"
      by (auto simp: I_def frames_append)
  qed
  then show ?thesis by (auto simp: I_def io_tell_def)
qed

lemma readULEB_Inr:
  "readULEB (d, p) = Inr (n, io) \<Longrightarrow> fst io = d \<and> p < snd io"
  by (auto simp: readULEB_def split: option.splits dest: leb128_take_length)

lemma frames_mono: "frames d p xs q \<Longrightarrow> p \<le> q"
proof (induction xs arbitrary: p)
  case Nil
  then show ?case by simp
next
  case (Cons s ss)
  then have "readULEB (d, Suc p) = Inr (size_s s, (d, offset_s s))"
    and "frames d (offset_s s + size_s s) ss q" by simp_all
  from readULEB_Inr [OF this(1)] Cons.IH [OF this(2)] show ?case by simp
qed

lemma frames_prefix:
  "frames d p xs q \<Longrightarrow> frames d p ys r \<Longrightarrow> length xs \<le> length ys \<Longrightarrow>
   \<exists>zs. ys = xs @ zs \<and> frames d q zs r"
proof (induction xs arbitrary: p ys)
  case Nil
  then show ?case by simp
next
  case (Cons s ss)
  from Cons.prems(3) obtain t ts where ys: "ys = t # ts" by (cases ys) auto
  from Cons.prems(1,2) ys have "s = t" by auto
  with Cons.prems ys Cons.IH [of "offset_s s + size_s s" ts] show ?case by auto
qed

lemma frames_unique:
  assumes "frames d p xs (length d)" and "frames d p ys q"
  shows "(q = length d \<longrightarrow> ys = xs) \<and> q \<le> length d"
proof (cases "length xs \<le> length ys")
  case True
  from frames_prefix [OF assms True] obtain zs where
    ys: "ys = xs @ zs" and z: "frames d (length d) zs q" by blast
  from z have "zs = []" by (cases zs) auto
  with ys z show ?thesis by simp
next
  case False
  then have "length ys \<le> length xs" by simp
  from frames_prefix [OF assms(2,1) this] obtain zs where
    xs: "xs = ys @ zs" and z: "frames d q zs (length d)" by blast
  from False xs obtain u us where "zs = u # us" by (cases zs) auto
  with z have "q < length d" by simp
  then show ?thesis by simp
qed

lemma map_sum_Inr: "map_sum id g x = Inr y \<Longrightarrow> \<exists>m. x = Inr m \<and> g m = y"
  by (cases x) auto

lemma not_Inr_Inl: "(\<And>m. x \<noteq> Inr m) \<Longrightarrow> \<exists>e. x = Inl e"
  by (cases x) auto

text \<open>
  C6. The scan ends only when the position equals the size of the file: a module that
  opens has section frames that start at offset 8, follow one another and end exactly
  at the end of the file; and a file in which a chain of frames from offset 8 ends past
  the end of the file does not open.
\<close>

theorem section_scan_tiles_or_fails:
  "(Module_init f = Inr m \<longrightarrow> frames f 8 (sections m) (length f))
   \<and> (frames f 8 secs q \<and> length f < q \<longrightarrow> (\<exists>e. Module_init f = Inl e))"
proof (intro conjI impI)
  assume "Module_init f = Inr m"
  then show "frames f 8 (sections m) (length f)" by (rule scan_frames)
next
  assume a: "frames f 8 secs q \<and> length f < q"
  show "\<exists>e. Module_init f = Inl e"
  proof (rule not_Inr_Inl)
    fix m'
    show "Module_init f \<noteq> Inr m'"
    proof
      assume "Module_init f = Inr m'"
      from frames_unique [OF scan_frames [OF this], of secs q] a show False by simp
    qed
  qed
qed

theorem section_scan_tiles_or_fails_witness:
  "(\<exists>m. Module_init short_dylink_file = Inr m
       \<and> frames short_dylink_file 8 (sections m) (length short_dylink_file))
   \<and> frames overshoot_file 8 [\<lparr>type_s = 1, size_s = 5, offset_s = 10\<rparr>] 15
   \<and> length overshoot_file < 15
   \<and> (\<exists>e. Module_init overshoot_file = Inl e)"
proof -
  have "map_sum id sections (Module_init short_dylink_file)
       = Inr [\<lparr>type_s = 0, size_s = 12, offset_s = 10\<rparr>,
              \<lparr>type_s = 1, size_s = 1, offset_s = 24\<rparr>]"
    by code_simp
  from map_sum_Inr [OF this] obtain m where m: "Module_init short_dylink_file = Inr m"
    by blast
  have h: "frames overshoot_file 8 [\<lparr>type_s = 1, size_s = 5, offset_s = 10\<rparr>] 15"
    by code_simp
  have l: "length overshoot_file < 15" by (simp add: overshoot_file_def)
  from section_scan_tiles_or_fails [of short_dylink_file m] m
    section_scan_tiles_or_fails [of overshoot_file _ "[\<lparr>type_s = 1, size_s = 5, offset_s = 10\<rparr>]" 15]
    h l
  show ?thesis by blast
qed

lemma non_custom_snoc:
  "non_custom (xs @ [s]) = (if type_s s \<noteq> 0 then non_custom xs @ [s] else non_custom xs)"
  by (simp add: non_custom_def)

lemma set_non_custom: "set (non_custom xs) = {s \<in> set xs. type_s s \<noteq> 0}"
  by (simp add: non_custom_def)

lemma scan_index:
  assumes "Module_init f = Inr m"
  shows "distinct (map type_s (non_custom (sections m)))"
    and "section_map m t = Some s \<longleftrightarrow> t \<noteq> 0 \<and> s \<in> set (sections m) \<and> type_s s = t"
proof -
  define I where "I = (\<lambda>m::Module. distinct (map type_s (non_custom (sections m)))
      \<and> (\<forall>t s. section_map m t = Some s \<longleftrightarrow> t \<noteq> 0 \<and> s \<in> set (sections m) \<and> type_s s = t))"
  have "I m \<and> io_tell (buf m) = size_m m"
  proof (rule readSectionHeaders_invariant [of "after_header f" m I])
    show "Module_readSectionHeaders (after_header f) = Inr m"
      by (rule Module_init_Inr(2) [OF assms])
    show "I (after_header f)" by (simp add: I_def after_header_def non_custom_def)
  next
    fix m m' :: Module
    assume i: "I m" and b: "readSectionHeaders_body m = Inr m'"
    obtain d p where bm: "buf m = (d, p)" by (cases "buf m")
    from readSectionHeaders_body_Inr [OF b bm] obtain n off where
      secs: "sections m' = sections m @ [\<lparr>type_s = d ! p, size_s = n, offset_s = off\<rparr>]"
      and mp: "if d ! p \<noteq> 0
             then d ! p \<notin> dom (section_map m)
                \<and> section_map m' = (section_map m)(d ! p \<mapsto>
                     \<lparr>type_s = d ! p, size_s = n, offset_s = off\<rparr>)
             else section_map m' = section_map m"
      by blast
    show "I m'"
    proof (cases "d ! p = 0")
      case True
      with mp secs i show ?thesis
        by (auto simp: I_def non_custom_snoc)
    next
      case False
      with mp have nd: "section_map m (d ! p) = None"
        and m': "section_map m' = (section_map m)(d ! p \<mapsto>
                     \<lparr>type_s = d ! p, size_s = n, offset_s = off\<rparr>)"
        by auto
      from i have dist: "distinct (map type_s (non_custom (sections m)))"
        and idx: "\<And>t s. section_map m t = Some s \<longleftrightarrow> t \<noteq> 0 \<and> s \<in> set (sections m) \<and> type_s s = t"
        by (auto simp: I_def)
      have fresh: "\<forall>s \<in> set (sections m). type_s s \<noteq> d ! p"
      proof
        fix s assume "s \<in> set (sections m)"
        show "type_s s \<noteq> d ! p"
        proof
          assume "type_s s = d ! p"
          with \<open>s \<in> set (sections m)\<close> False idx [of "d ! p" s]
          have "section_map m (d ! p) = Some s" by simp
          with nd show False by simp
        qed
      qed
      have "distinct (map type_s (non_custom (sections m')))"
        using dist fresh False by (auto simp: secs non_custom_snoc set_non_custom)
      moreover have "section_map m' t = Some s \<longleftrightarrow> t \<noteq> 0 \<and> s \<in> set (sections m') \<and> type_s s = t"
        for t s
        using fresh False idx [of t s] by (auto simp: m' secs)
      ultimately show ?thesis by (simp add: I_def)
    qed
  qed
  then show "distinct (map type_s (non_custom (sections m)))"
    and "section_map m t = Some s \<longleftrightarrow> t \<noteq> 0 \<and> s \<in> set (sections m) \<and> type_s s = t"
    by (auto simp: I_def)
qed

text \<open>
  C7. In a module that opens, no two sections of a non-custom type share their type,
  and the type-indexed map holds exactly the non-custom sections, each under its type;
  a file whose section frames include two of the same non-custom type does not open;
  custom sections are not in the map and may repeat.
\<close>

theorem non_custom_sections_unique:
  "(Module_init f = Inr m \<longrightarrow>
      distinct (map type_s (non_custom (sections m)))
    \<and> (\<forall>t s. section_map m t = Some s \<longleftrightarrow>
               t \<noteq> SecType_value CUSTOM \<and> s \<in> set (sections m) \<and> type_s s = t))
   \<and> (frames f 8 secs (length f) \<and> \<not> distinct (map type_s (non_custom secs)) \<longrightarrow>
        (\<exists>e. Module_init f = Inl e))
   \<and> (\<exists>m2. Module_init two_custom_file = Inr m2
         \<and> sections m2 = [\<lparr>type_s = 0, size_s = 1, offset_s = 10\<rparr>,
                           \<lparr>type_s = 0, size_s = 2, offset_s = 13\<rparr>]
         \<and> section_map m2 = Map.empty)"
proof (intro conjI impI allI)
  assume "Module_init f = Inr m"
  then show "distinct (map type_s (non_custom (sections m)))" by (rule scan_index)
next
  fix t s
  assume "Module_init f = Inr m"
  from scan_index(2) [OF this]
  show "section_map m t = Some s \<longleftrightarrow>
          t \<noteq> SecType_value CUSTOM \<and> s \<in> set (sections m) \<and> type_s s = t"
    by simp
next
  assume a: "frames f 8 secs (length f) \<and> \<not> distinct (map type_s (non_custom secs))"
  show "\<exists>e. Module_init f = Inl e"
  proof (rule not_Inr_Inl)
    fix m'
    show "Module_init f \<noteq> Inr m'"
    proof
      assume o: "Module_init f = Inr m'"
      from frames_unique [OF scan_frames [OF o], of secs "length f"] a
      have "secs = sections m'" by simp
      with scan_index(1) [OF o] a show False by simp
    qed
  qed
next
  have "map_sum id sections (Module_init two_custom_file)
       = Inr [\<lparr>type_s = 0, size_s = 1, offset_s = 10\<rparr>,
              \<lparr>type_s = 0, size_s = 2, offset_s = 13\<rparr>]"
    by code_simp
  from map_sum_Inr [OF this] obtain m2 where o: "Module_init two_custom_file = Inr m2"
    and s: "sections m2 = [\<lparr>type_s = 0, size_s = 1, offset_s = 10\<rparr>,
                           \<lparr>type_s = 0, size_s = 2, offset_s = 13\<rparr>]"
    by blast
  have "section_map m2 t = None" for t
  proof (cases "section_map m2 t")
    case (Some x)
    from scan_index(2) [OF o, of t x] Some s show ?thesis by auto
  qed simp
  then have "section_map m2 = Map.empty" by (simp add: fun_eq_iff)
  with o s show "\<exists>m2. Module_init two_custom_file = Inr m2
         \<and> sections m2 = [\<lparr>type_s = 0, size_s = 1, offset_s = 10\<rparr>,
                           \<lparr>type_s = 0, size_s = 2, offset_s = 13\<rparr>]
         \<and> section_map m2 = Map.empty"
    by blast
qed

theorem non_custom_sections_unique_witness:
  "(\<exists>m. Module_init short_dylink_file = Inr m
      \<and> distinct (map type_s (non_custom (sections m)))
      \<and> (\<forall>t s. section_map m t = Some s \<longleftrightarrow>
               t \<noteq> SecType_value CUSTOM \<and> s \<in> set (sections m) \<and> type_s s = t))
   \<and> frames two_type_file 8 [\<lparr>type_s = 1, size_s = 1, offset_s = 10\<rparr>,
                             \<lparr>type_s = 1, size_s = 2, offset_s = 13\<rparr>] (length two_type_file)
   \<and> \<not> distinct (map type_s (non_custom [\<lparr>type_s = 1, size_s = 1, offset_s = 10\<rparr>,
                             \<lparr>type_s = 1, size_s = 2, offset_s = 13\<rparr>]))
   \<and> (\<exists>e. Module_init two_type_file = Inl e)"
proof -
  have "map_sum id sections (Module_init short_dylink_file)
       = Inr [\<lparr>type_s = 0, size_s = 12, offset_s = 10\<rparr>,
              \<lparr>type_s = 1, size_s = 1, offset_s = 24\<rparr>]"
    by code_simp
  from map_sum_Inr [OF this] obtain m where m: "Module_init short_dylink_file = Inr m"
    by blast
  have h: "frames two_type_file 8 [\<lparr>type_s = 1, size_s = 1, offset_s = 10\<rparr>,
                             \<lparr>type_s = 1, size_s = 2, offset_s = 13\<rparr>] (length two_type_file)"
    by code_simp
  have l: "\<not> distinct (map type_s (non_custom [\<lparr>type_s = 1, size_s = 1, offset_s = 10\<rparr>,
                             \<lparr>type_s = 1, size_s = 2, offset_s = 13\<rparr>]))"
    by (simp add: non_custom_def)
  from non_custom_sections_unique [of short_dylink_file m] m
    non_custom_sections_unique [of two_type_file _ "[\<lparr>type_s = 1, size_s = 1, offset_s = 10\<rparr>,
                             \<lparr>type_s = 1, size_s = 2, offset_s = 13\<rparr>]"]
    h l
  show ?thesis by blast
qed

section \<open>The readers on encoded values\<close>

lemma readsD:
  "reads r enc v \<Longrightarrow> buf m = (d, p) \<Longrightarrow> drop p d = enc @ rest \<Longrightarrow>
   r m = Inr (v, m\<lparr>buf := (d, p + length enc)\<rparr>)"
  unfolding reads_def by blast

lemma reads_readByte: "reads Module_readByte [b] b"
  by (auto simp: reads_def Module_readByte_drop)

lemma reads_readULEB: "reads Module_readULEB (toLEB n) n"
  unfolding reads_def by (auto intro: Module_readULEB_toLEB)

lemma leb128_take_varint: "is_varint a \<Longrightarrow> leb128_take (a @ rest) = Some a"
proof (induction a)
  case Nil
  then show ?case by (simp add: is_varint_def)
next
  case (Cons b bs)
  show ?case
  proof (cases "bs = []")
    case True
    with Cons.prems show ?thesis by (simp add: is_varint_def)
  next
    case False
    with Cons.prems have "is_varint bs" and "128 \<le> unat b" by (auto simp: is_varint_def)
    with Cons.IH show ?thesis by simp
  qed
qed

lemma reads_readSLEB: "is_varint a \<Longrightarrow> reads Module_readSLEB a (leb128_i_decode a)"
  by (auto simp: reads_def Module_readSLEB_def readSLEB_def leb128_take_varint)

lemma reads_readString:
  assumes "utf8_decode b = Some s"
  shows "reads Module_readString (length_prefixed b) s"
  unfolding reads_def
proof (intro allI impI)
  fix m :: Module and d p rest
  assume a: "buf m = (d, p) \<and> drop p d = length_prefixed b @ rest"
  then have bm: "buf m = (d, p)" and dr: "drop p d = toLEB (length b) @ b @ rest"
    by (simp_all add: length_prefixed_def)
  from Module_readULEB_toLEB [OF bm dr]
  have u: "Module_readULEB m = Inr (length b, m\<lparr>buf := (d, p + length (toLEB (length b)))\<rparr>)" .
  from drop_past [OF dr] have "drop (p + length (toLEB (length b))) d = b @ rest" .
  then have t: "take (length b) (drop (p + length (toLEB (length b))) d) = b" by simp
  have tl: "min (length d - (p + length (toLEB (length b)))) (length b) = length b"
    using arg_cong [OF t, of length] by simp
  show "Module_readString m = Inr (s, m\<lparr>buf := (d, p + length (length_prefixed b))\<rparr>)"
    by (simp add: Module_readString_def u io_read_def Let_def t tl decode_utf8_def assms
        length_prefixed_def add.assoc)
qed

lemma reads_readLimits:
  "reads Module_readLimits (limits_bytes l)
     \<lparr>flags = flags l, initial = initial l,
      maximum = (if flags l AND 1 \<noteq> 0 then maximum l else 0)\<rparr>"
  unfolding reads_def
proof (intro allI impI)
  fix m :: Module and d p rest
  assume a: "buf m = (d, p) \<and> drop p d = limits_bytes l @ rest"
  then have bm: "buf m = (d, p)" by simp
  let ?mx = "if flags l AND 1 \<noteq> 0 then toLEB (maximum l) else []"
  from a have dr: "drop p d = [flags l] @ toLEB (initial l) @ ?mx @ rest"
    by (simp add: limits_bytes_def)
  from readsD [OF reads_readByte bm dr]
  have r1: "Module_readByte m = Inr (flags l, m\<lparr>buf := (d, Suc p)\<rparr>)" by simp
  from drop_past [OF dr] have d1: "drop (Suc p) d = toLEB (initial l) @ ?mx @ rest" by simp
  have r2: "Module_readULEB (m\<lparr>buf := (d, Suc p)\<rparr>)
      = Inr (initial l, m\<lparr>buf := (d, Suc p + length (toLEB (initial l)))\<rparr>)"
    using readsD [OF reads_readULEB _ d1, of "m\<lparr>buf := (d, Suc p)\<rparr>"] by simp
  from drop_past [OF d1] have d2: "drop (Suc p + length (toLEB (initial l))) d = ?mx @ rest" .
  show "Module_readLimits m = Inr (\<lparr>flags = flags l, initial = initial l,
      maximum = (if flags l AND 1 \<noteq> 0 then maximum l else 0)\<rparr>,
      m\<lparr>buf := (d, p + length (limits_bytes l))\<rparr>)"
  proof (cases "flags l AND 1 \<noteq> 0")
    case True
    with d2 have d2': "drop (Suc p + length (toLEB (initial l))) d = toLEB (maximum l) @ rest"
      by simp
    have r3: "Module_readULEB (m\<lparr>buf := (d, Suc p + length (toLEB (initial l)))\<rparr>)
      = Inr (maximum l, m\<lparr>buf := (d, Suc p + length (toLEB (initial l))
            + length (toLEB (maximum l)))\<rparr>)"
      using readsD [OF reads_readULEB _ d2',
          of "m\<lparr>buf := (d, Suc p + length (toLEB (initial l)))\<rparr>"] by simp
    from True r1 r2 r3 show ?thesis
      by (simp add: Module_readLimits_def limits_bytes_def)
  next
    case False
    with r1 r2 show ?thesis
      by (simp add: Module_readLimits_def limits_bytes_def)
  qed
qed

section \<open>Enumerating the imports\<close>

lemma entry_bytes_Some:
  assumes "entry_bytes (mn, fn, desc) = Some b"
  shows "\<exists>mb fb pb. utf8_encode mn = Some mb \<and> utf8_encode fn = Some fb
           \<and> desc_bytes desc = Some pb
           \<and> b = length_prefixed mb @ length_prefixed fb @ [kind_byte (kind_of desc)] @ pb"
  using assms by (auto split: option.splits)

lemma ExternType_of_kind_byte: "ExternType_of (kind_byte k) = Inr k"
  by (cases k) (simp_all add: ExternType_of_def)

text \<open>What the loop does up to the payload of an entry that starts in the stream.\<close>

lemma read_imports_names:
  assumes mb: "utf8_encode mn = Some mb" and fb: "utf8_encode fn = Some fb"
    and bm: "buf m = (d, p)"
    and dr: "drop p d = length_prefixed mb @ length_prefixed fb @ [b] @ rest"
  shows "read_imports (Suc n) m acc =
     bindE (ExternType_of b) (\<lambda>kind.
       let imports = acc @ [\<lparr>type_i = kind, mod_i = mn, field_i = fn\<rparr>];
           m3 = m\<lparr>buf := (d, p + length (length_prefixed mb) + length (length_prefixed fb) + 1)\<rparr>
       in case kind of
            FUNC \<Rightarrow>
              bindE (Module_readULEB m3) (\<lambda>(sig, m4). read_imports n m4 imports)
          | GLOBAL_x \<Rightarrow>
              bindE (Module_readSLEB m3) (\<lambda>(global_type, m4).
              bindE (Module_readByte m4) (\<lambda>(mutable, m5). read_imports n m5 imports))
          | MEMORY_x \<Rightarrow>
              bindE (Module_readLimits m3) (\<lambda>(lim, m4). read_imports n m4 imports)
          | TABLE_x \<Rightarrow>
              bindE (Module_readSLEB m3) (\<lambda>(table_type, m4).
              bindE (Module_readLimits m4) (\<lambda>(lim, m5). read_imports n m5 imports))
          | EVENT_x \<Rightarrow> Inl AssertionError)"
proof -
  let ?p1 = "p + length (length_prefixed mb)"
  let ?p2 = "?p1 + length (length_prefixed fb)"
  from readsD [OF reads_readString [OF utf8_decode_encode [OF mb]] bm dr]
  have r1: "Module_readString m = Inr (mn, m\<lparr>buf := (d, ?p1)\<rparr>)" .
  from drop_past [OF dr] have d1: "drop ?p1 d = length_prefixed fb @ [b] @ rest" .
  have r2: "Module_readString (m\<lparr>buf := (d, ?p1)\<rparr>) = Inr (fn, m\<lparr>buf := (d, ?p2)\<rparr>)"
    using readsD [OF reads_readString [OF utf8_decode_encode [OF fb]] _ d1,
        of "m\<lparr>buf := (d, ?p1)\<rparr>"] by simp
  from drop_past [OF d1] have d2: "drop ?p2 d = [b] @ rest" .
  have r3: "Module_readByte (m\<lparr>buf := (d, ?p2)\<rparr>) = Inr (b, m\<lparr>buf := (d, ?p2 + 1)\<rparr>)"
    using readsD [OF reads_readByte _ d2, of "m\<lparr>buf := (d, ?p2)\<rparr>"] by simp
  show ?thesis
    by (simp only: read_imports.simps r1 r2 r3 bindE_Inr prod.case Let_def)
qed

lemma read_imports_entry:
  assumes eb: "entry_bytes e = Some b" and bm: "buf m = (d, p)"
    and dr: "drop p d = b @ rest"
  shows "read_imports (Suc n) m acc
         = read_imports n (m\<lparr>buf := (d, p + length b)\<rparr>) (acc @ [import_of e])"
proof -
  obtain mn fn desc where e: "e = (mn, fn, desc)" by (cases e)
  from entry_bytes_Some [OF eb [unfolded e]] obtain mb fb pb where
    mb: "utf8_encode mn = Some mb" and fb: "utf8_encode fn = Some fb"
    and pb: "desc_bytes desc = Some pb"
    and b: "b = length_prefixed mb @ length_prefixed fb @ [kind_byte (kind_of desc)] @ pb"
    by blast
  define q where "q = p + length (length_prefixed mb) + length (length_prefixed fb) + 1"
  define m3 where "m3 = m\<lparr>buf := (d, q)\<rparr>"
  from dr b have dr': "drop p d = length_prefixed mb @ length_prefixed fb
      @ [kind_byte (kind_of desc)] @ (pb @ rest)" by simp
  have d3: "drop q d = pb @ rest"
    using drop_past [OF drop_past [OF drop_past [OF dr']]] by (simp add: q_def)
  have bm3: "buf m3 = (d, q)" by (simp add: m3_def)
  have len: "p + length b = q + length pb" by (simp add: b q_def)
  have fin: "m3\<lparr>buf := (d, q + length pb)\<rparr> = m\<lparr>buf := (d, p + length b)\<rparr>"
    by (simp add: m3_def len)
  note hd = read_imports_names [OF mb fb bm dr', of n acc, folded q_def, folded m3_def]
  show ?thesis
  proof (cases desc)
    case (FuncDesc sig)
    with pb have pb': "pb = toLEB sig" by simp
    from readsD [OF reads_readULEB bm3 d3 [unfolded pb']] fin
    have "Module_readULEB m3 = Inr (sig, m\<lparr>buf := (d, p + length b)\<rparr>)"
      by (simp add: pb')
    with FuncDesc show ?thesis
      by (simp add: hd e ExternType_of_def del: read_imports.simps)
  next
    case (TableDesc tt l)
    with pb have v: "is_varint tt" and pb': "pb = tt @ limits_bytes l"
      by (auto split: if_splits)
    from d3 pb' have d3': "drop q d = tt @ limits_bytes l @ rest" by simp
    from readsD [OF reads_readSLEB [OF v] bm3 d3']
    have r1: "Module_readSLEB m3 = Inr (leb128_i_decode tt, m3\<lparr>buf := (d, q + length tt)\<rparr>)" .
    from drop_past [OF d3'] have d4: "drop (q + length tt) d = limits_bytes l @ rest" .
    have "m3\<lparr>buf := (d, q + length tt + length (limits_bytes l))\<rparr>
        = m\<lparr>buf := (d, p + length b)\<rparr>"
      using fin by (simp add: pb' add.assoc)
    with readsD [OF reads_readLimits _ d4, of "m3\<lparr>buf := (d, q + length tt)\<rparr>"]
    have r2: "Module_readLimits (m3\<lparr>buf := (d, q + length tt)\<rparr>)
        = Inr (\<lparr>flags = flags l, initial = initial l,
                maximum = (if flags l AND 1 \<noteq> 0 then maximum l else 0)\<rparr>,
               m\<lparr>buf := (d, p + length b)\<rparr>)"
      by simp
    from TableDesc show ?thesis
      by (simp add: hd e ExternType_of_def r1 r2 del: read_imports.simps)
  next
    case (MemoryDesc l)
    with pb have pb': "pb = limits_bytes l" by simp
    from readsD [OF reads_readLimits bm3 d3 [unfolded pb']] fin
    have "Module_readLimits m3
        = Inr (\<lparr>flags = flags l, initial = initial l,
                maximum = (if flags l AND 1 \<noteq> 0 then maximum l else 0)\<rparr>,
               m\<lparr>buf := (d, p + length b)\<rparr>)"
      by (simp add: pb')
    with MemoryDesc show ?thesis
      by (simp add: hd e ExternType_of_def del: read_imports.simps)
  next
    case (GlobalDesc gt mu)
    with pb have v: "is_varint gt" and pb': "pb = gt @ [mu]"
      by (auto split: if_splits)
    from d3 pb' have d3': "drop q d = gt @ [mu] @ rest" by simp
    from readsD [OF reads_readSLEB [OF v] bm3 d3']
    have r1: "Module_readSLEB m3 = Inr (leb128_i_decode gt, m3\<lparr>buf := (d, q + length gt)\<rparr>)" .
    from drop_past [OF d3'] have d4: "drop (q + length gt) d = [mu] @ rest" .
    have "m3\<lparr>buf := (d, q + length gt + length [mu])\<rparr> = m\<lparr>buf := (d, p + length b)\<rparr>"
      using fin by (simp add: pb')
    with readsD [OF reads_readByte _ d4, of "m3\<lparr>buf := (d, q + length gt)\<rparr>"]
    have r2: "Module_readByte (m3\<lparr>buf := (d, q + length gt)\<rparr>)
        = Inr (mu, m\<lparr>buf := (d, p + length b)\<rparr>)"
      by simp
    from GlobalDesc show ?thesis
      by (simp add: hd e ExternType_of_def r1 r2 del: read_imports.simps)
  qed
qed

lemma read_imports_entries:
  assumes "entries_bytes es = Some bs" and "buf m = (d, p)" and "drop p d = bs @ rest"
  shows "read_imports (length es + k) m acc
         = read_imports k (m\<lparr>buf := (d, p + length bs)\<rparr>) (acc @ map import_of es)"
  using assms
proof (induction es arbitrary: bs m p acc)
  case Nil
  have u: "m\<lparr>buf := (d, p)\<rparr> = m" using Nil.prems(2) by simp
  from Nil.prems(1) show ?case by (simp add: u)
next
  case (Cons e es)
  from Cons.prems(1) obtain b t where b: "entry_bytes e = Some b"
    and t: "entries_bytes es = Some t" and bs: "bs = b @ t"
    by (auto split: option.splits)
  from Cons.prems(3) bs have dr: "drop p d = b @ (t @ rest)" by simp
  from read_imports_entry [OF b Cons.prems(2) dr]
  have s1: "read_imports (Suc (length es + k)) m acc
      = read_imports (length es + k) (m\<lparr>buf := (d, p + length b)\<rparr>) (acc @ [import_of e])" .
  from drop_past [OF dr] have d2: "drop (p + length b) d = t @ rest" .
  from Cons.IH [OF t _ d2, of "m\<lparr>buf := (d, p + length b)\<rparr>" "acc @ [import_of e]"]
  have s2: "read_imports (length es + k) (m\<lparr>buf := (d, p + length b)\<rparr>) (acc @ [import_of e])
      = read_imports k (m\<lparr>buf := (d, p + length b + length t)\<rparr>)
          (acc @ [import_of e] @ map import_of es)"
    by simp
  from s1 s2 show ?case by (simp add: bs add.assoc)
qed

lemma scan_buf:
  assumes "Module_init f = Inr m"
  shows "buf m = (f, length f)"
proof -
  define I where "I = (\<lambda>m::Module. fst (buf m) = f \<and> size_m m = length f)"
  have "I m \<and> io_tell (buf m) = size_m m"
  proof (rule readSectionHeaders_invariant [of "after_header f" m I])
    show "Module_readSectionHeaders (after_header f) = Inr m"
      by (rule Module_init_Inr(2) [OF assms])
    show "I (after_header f)" by (simp add: I_def after_header_def)
  next
    fix m m' :: Module
    assume i: "I m" and b: "readSectionHeaders_body m = Inr m'"
    from i have "buf m = (f, snd (buf m))" by (simp add: I_def prod_eq_iff)
    from readSectionHeaders_body_Inr [OF b this] i show "I m'"
      by (auto simp: I_def)
  qed
  then show ?thesis by (simp add: I_def io_tell_def prod_eq_iff)
qed

lemma get_imports_section:
  assumes o: "Module_init f = Inr m" and sm: "section_map m (SecType_value IMPORT) = Some sec"
    and dr: "drop (offset_s sec) f = toLEB n @ rest"
  shows "get_imports f
         = read_imports n (m\<lparr>buf := (f, offset_s sec + length (toLEB n))\<rparr>) []"
proof -
  have bm: "buf (Module_seek m (offset_s sec)) = (f, offset_s sec)"
    by (simp add: Module_seek_def io_seek_def scan_buf [OF o])
  from readsD [OF reads_readULEB bm dr]
  have "Module_readULEB (Module_seek m (offset_s sec))
      = Inr (n, m\<lparr>buf := (f, offset_s sec + length (toLEB n))\<rparr>)"
    by (simp add: Module_seek_def)
  with o sm show ?thesis by (simp add: get_imports_def)
qed

text \<open>
  C2, as stated: every entry with a kind byte in 0..4 yields an Import record. The
  import section of \<open>event_import_file\<close> has one entry, of kind Event (byte 4), and
  \<open>get_imports\<close> fails on it: the loop has no branch for Event and ends in
  \<open>assert False\<close>.
\<close>

theorem get_imports_fails_on_event:
  "get_imports event_import_file = Inl AssertionError"
  by code_simp

text \<open>
  C2, amended: when the payload of the import section is the encoding of a list of
  entries of kind Function, Table, Memory or Global, \<open>get_imports\<close> returns one Import
  record per entry, in file order, with the kind, module name and field name of the
  entry; an entry whose kind byte is none of 0, 1, 2, 3 is a fatal error
  (AssertionError for the byte 4 of Event, ValueError for a byte outside the
  enumeration).
\<close>

theorem get_imports_enumerates:
  "(Module_init f = Inr m \<and> section_map m (SecType_value IMPORT) = Some sec
      \<and> import_section_bytes entries = Some payload
      \<and> take (size_s sec) (drop (offset_s sec) f) = payload
    \<longrightarrow> get_imports f = Inr (map import_of entries))
   \<and> (Module_init f = Inr m \<and> section_map m (SecType_value IMPORT) = Some sec
      \<and> entries_bytes pre = Some pb \<and> utf8_encode mn = Some mb \<and> utf8_encode fn = Some fb
      \<and> length pre < n \<and> b \<notin> {0, 1, 2, 3}
      \<and> drop (offset_s sec) f
          = toLEB n @ pb @ length_prefixed mb @ length_prefixed fb @ [b] @ rest
    \<longrightarrow> get_imports f = Inl (if b = 4 then AssertionError else ValueError))"
proof (intro conjI impI)
  assume a: "Module_init f = Inr m \<and> section_map m (SecType_value IMPORT) = Some sec
      \<and> import_section_bytes entries = Some payload
      \<and> take (size_s sec) (drop (offset_s sec) f) = payload"
  then obtain bs where bs: "entries_bytes entries = Some bs"
    and pl: "payload = toLEB (length entries) @ bs"
    by (auto simp: import_section_bytes_def)
  define rest where "rest = drop (size_s sec) (drop (offset_s sec) f)"
  from a have "drop (offset_s sec) f = payload @ rest"
    unfolding rest_def by (metis append_take_drop_id)
  with pl have dr: "drop (offset_s sec) f = toLEB (length entries) @ bs @ rest"
    by simp
  from a have o: "Module_init f = Inr m"
    and sm: "section_map m (SecType_value IMPORT) = Some sec" by simp_all
  let ?m1 = "m\<lparr>buf := (f, offset_s sec + length (toLEB (length entries)))\<rparr>"
  from read_imports_entries [OF bs _ drop_past [OF dr], of ?m1 0 "[]"]
  have "read_imports (length entries) ?m1 [] = Inr (map import_of entries)" by simp
  with get_imports_section [OF o sm dr]
  show "get_imports f = Inr (map import_of entries)" by simp
next
  assume a: "Module_init f = Inr m \<and> section_map m (SecType_value IMPORT) = Some sec
      \<and> entries_bytes pre = Some pb \<and> utf8_encode mn = Some mb \<and> utf8_encode fn = Some fb
      \<and> length pre < n \<and> b \<notin> {0, 1, 2, 3}
      \<and> drop (offset_s sec) f
          = toLEB n @ pb @ length_prefixed mb @ length_prefixed fb @ [b] @ rest"
  then have o: "Module_init f = Inr m"
    and sm: "section_map m (SecType_value IMPORT) = Some sec"
    and pb: "entries_bytes pre = Some pb"
    and mb: "utf8_encode mn = Some mb" and fb: "utf8_encode fn = Some fb"
    and dr: "drop (offset_s sec) f
          = toLEB n @ pb @ length_prefixed mb @ length_prefixed fb @ [b] @ rest"
    by simp_all
  from a obtain k where n: "n = length pre + Suc k"
    by (metis less_iff_Suc_add add_Suc_right)
  from a have bad: "b \<noteq> 0" "b \<noteq> 1" "b \<noteq> 2" "b \<noteq> 3" by simp_all
  let ?m1 = "m\<lparr>buf := (f, offset_s sec + length (toLEB n))\<rparr>"
  let ?m2 = "?m1\<lparr>buf := (f, offset_s sec + length (toLEB n) + length pb)\<rparr>"
  note d1 = drop_past [OF dr]
  from read_imports_entries [OF pb _ d1, of ?m1 "Suc k" "[]"]
  have s1: "read_imports n ?m1 [] = read_imports (Suc k) ?m2 (map import_of pre)"
    by (simp add: n del: read_imports.simps)
  have s2: "read_imports (Suc k) ?m2 (map import_of pre)
      = Inl (if b = 4 then AssertionError else ValueError)"
    using read_imports_names [OF mb fb _ drop_past [OF d1], of ?m2 k "map import_of pre"] bad
    by (simp add: ExternType_of_def del: read_imports.simps)
  from get_imports_section [OF o sm dr] s1 s2
  show "get_imports f = Inl (if b = 4 then AssertionError else ValueError)" by simp
qed

theorem get_imports_enumerates_witness:
  "import_section_bytes four_imports
     = Some (take 38 (drop 10 four_imports_file))
   \<and> get_imports four_imports_file
     = Inr [\<lparr>type_i = FUNC, mod_i = str_lit ''env'', field_i = str_lit ''f''\<rparr>,
            \<lparr>type_i = GLOBAL_x, mod_i = str_lit ''env'', field_i = str_lit ''g''\<rparr>,
            \<lparr>type_i = MEMORY_x, mod_i = str_lit ''env'', field_i = str_lit ''m''\<rparr>,
            \<lparr>type_i = TABLE_x, mod_i = str_lit ''env'', field_i = str_lit ''t''\<rparr>]
   \<and> get_imports bad_kind_import_file = Inl ValueError"
proof -
  have "map_sum id (\<lambda>m. section_map m (SecType_value IMPORT)) (Module_init four_imports_file)
      = Inr (Some \<lparr>type_s = 2, size_s = 38, offset_s = 10\<rparr>)"
    by code_simp
  from map_sum_Inr [OF this] obtain m where o: "Module_init four_imports_file = Inr m"
    and sm: "section_map m (SecType_value IMPORT) = Some \<lparr>type_s = 2, size_s = 38, offset_s = 10\<rparr>"
    by blast
  have pl: "import_section_bytes four_imports = Some (take 38 (drop 10 four_imports_file))"
    by code_simp
  have "map_sum id (\<lambda>m. section_map m (SecType_value IMPORT)) (Module_init bad_kind_import_file)
      = Inr (Some \<lparr>type_s = 2, size_s = 10, offset_s = 10\<rparr>)"
    by code_simp
  from map_sum_Inr [OF this] obtain m' where o': "Module_init bad_kind_import_file = Inr m'"
    and sm': "section_map m' (SecType_value IMPORT) = Some \<lparr>type_s = 2, size_s = 10, offset_s = 10\<rparr>"
    by blast
  have e1: "entries_bytes [] = Some []" by simp
  have e2: "utf8_encode (str_lit ''env'') = Some [101, 110, 118]" by code_simp
  have e3: "utf8_encode (str_lit ''e'') = Some [101]" by code_simp
  have e4: "drop 10 bad_kind_import_file
      = toLEB 1 @ [] @ length_prefixed [101, 110, 118] @ length_prefixed [101] @ [99] @ [0, 0]"
    by code_simp
  have e5: "(99 :: byte) \<notin> {0, 1, 2, 3}" by simp
  from get_imports_enumerates [of four_imports_file m "\<lparr>type_s = 2, size_s = 38, offset_s = 10\<rparr>"
      four_imports "take 38 (drop 10 four_imports_file)"] o sm pl
  have r1: "get_imports four_imports_file = Inr (map import_of four_imports)" by simp
  from get_imports_enumerates [of bad_kind_import_file m' "\<lparr>type_s = 2, size_s = 10, offset_s = 10\<rparr>"
      _ _ "[]" "[]" "str_lit ''env''" "[101, 110, 118]" "str_lit ''e''" "[101]" 1 99 "[0, 0]"]
    o' sm' e1 e2 e3 e4 e5
  have r2: "get_imports bad_kind_import_file = Inl ValueError" by simp
  from pl r1 r2 show ?thesis by (simp add: four_imports_def)
qed

section \<open>The scan of two files that end with the same bytes\<close>

lemma readULEB_append:
  "readULEB (A @ R, length A + j) =
     (case leb128_take (drop j R) of
        None \<Rightarrow> Inl DecodeError
      | Some a \<Rightarrow> Inr (leb128_u_decode a, (A @ R, length A + j + length a)))"
  by (simp add: readULEB_def split: option.splits)

lemma readSectionHeaders_body_eq:
  assumes "buf m = (d, p)" and "p < length d" and "readULEB (d, Suc p) = Inr (n, (d, off))"
  shows "readSectionHeaders_body m =
     (if d ! p \<noteq> 0
      then if d ! p \<in> dom (section_map m) then Inl AssertionError
           else Inr (m\<lparr>buf := (d, off + n),
                  sections := sections m @ [\<lparr>type_s = d ! p, size_s = n, offset_s = off\<rparr>],
                  section_map := (section_map m)(d ! p \<mapsto>
                     \<lparr>type_s = d ! p, size_s = n, offset_s = off\<rparr>)\<rparr>)
      else Inr (m\<lparr>buf := (d, off + n),
                  sections := sections m @ [\<lparr>type_s = d ! p, size_s = n, offset_s = off\<rparr>]\<rparr>))"
proof -
  from assms(2) have dr: "drop p d = d ! p # drop (Suc p) d"
    by (simp add: Cons_nth_drop_Suc)
  with assms(1) have rb: "Module_readByte m = Inr (d ! p, m\<lparr>buf := (d, Suc p)\<rparr>)"
    by (simp add: Module_readByte_drop)
  from assms(3) have ru: "Module_readULEB (m\<lparr>buf := (d, Suc p)\<rparr>) = Inr (n, m\<lparr>buf := (d, off)\<rparr>)"
    by (simp add: Module_readULEB_def)
  show ?thesis
    by (simp add: readSectionHeaders_body_def rb ru Let_def Module_seek_def io_seek_def
        io_tell_def)
qed

lemma scan_shift:
  assumes "Module_readSectionHeaders m = Inr r"
    and "buf m = (A @ R, length A + k)" and "size_m m = length (A @ R)"
    and "buf m' = (A' @ R, length A' + k)" and "size_m m' = length (A' @ R)"
    and "dom (section_map m') = dom (section_map m)"
  shows "\<exists>r' new. Module_readSectionHeaders m' = Inr r'
           \<and> sections r = sections m @ new
           \<and> sections r' = sections m' @ map (shift_section (length A) (length A')) new"
  using assms
proof (induction m arbitrary: m' k rule: Module_readSectionHeaders.induct)
  case (1 m)
  show ?case
  proof (cases "k = length R")
    case True
    with "1.prems" have "r = m" and "Module_readSectionHeaders m' = Inr m'"
      by (simp_all add: Module_readSectionHeaders.simps [of m]
          Module_readSectionHeaders.simps [of m'] io_tell_def)
    then show ?thesis by simp
  next
    case False
    with "1.prems" have ne: "io_tell (buf m) \<noteq> size_m m" and ne': "io_tell (buf m') \<noteq> size_m m'"
      by (simp_all add: io_tell_def)
    with "1.prems"(1) obtain m1 where b: "readSectionHeaders_body m = Inr m1"
      and r: "Module_readSectionHeaders m1 = Inr r"
      by (auto simp: Module_readSectionHeaders.simps [of m] split: sum.splits)
    from readSectionHeaders_body_Inr [OF b "1.prems"(2)] obtain n off where
      lt: "length A + k < length (A @ R)"
      and ru: "readULEB (A @ R, Suc (length A + k)) = Inr (n, (A @ R, off))"
      and b1: "buf m1 = (A @ R, off + n)" and s1: "size_m m1 = size_m m"
      and secs: "sections m1 = sections m @
            [\<lparr>type_s = (A @ R) ! (length A + k), size_s = n, offset_s = off\<rparr>]"
      and mp: "if (A @ R) ! (length A + k) \<noteq> 0
             then (A @ R) ! (length A + k) \<notin> dom (section_map m)
                \<and> section_map m1 = (section_map m)((A @ R) ! (length A + k) \<mapsto>
                     \<lparr>type_s = (A @ R) ! (length A + k), size_s = n, offset_s = off\<rparr>)
             else section_map m1 = section_map m"
      by blast
    from lt have kl: "k < length R" by simp
    define t where "t = R ! k"
    have t: "(A @ R) ! (length A + k) = t" "(A' @ R) ! (length A' + k) = t"
      by (simp_all add: t_def)
    from ru obtain a where tk: "leb128_take (drop (Suc k) R) = Some a"
      and n: "n = leb128_u_decode a" and off: "off = length A + Suc k + length a"
      using readULEB_append [of A R "Suc k"] by (auto split: option.splits)
    define off' where "off' = length A' + Suc k + length a"
    have ru': "readULEB (A' @ R, Suc (length A' + k)) = Inr (n, (A' @ R, off'))"
      using readULEB_append [of A' R "Suc k"] tk n by (simp add: off'_def)
    have lt': "length A' + k < length (A' @ R)" using kl by simp
    note b' = readSectionHeaders_body_eq [OF "1.prems"(4) lt' ru', unfolded t]
    define sec where "sec = \<lparr>type_s = t, size_s = n, offset_s = off\<rparr>"
    define sec' where "sec' = \<lparr>type_s = t, size_s = n, offset_s = off'\<rparr>"
    have sh: "shift_section (length A) (length A') sec = sec'"
      by (simp add: shift_section_def sec_def sec'_def off off'_def)
    from mp t "1.prems"(6) have nd: "t \<noteq> 0 \<longrightarrow> t \<notin> dom (section_map m')" by auto
    define m1' where "m1' = (if t \<noteq> 0
        then m'\<lparr>buf := (A' @ R, off' + n), sections := sections m' @ [sec'],
                section_map := (section_map m')(t \<mapsto> sec')\<rparr>
        else m'\<lparr>buf := (A' @ R, off' + n), sections := sections m' @ [sec']\<rparr>)"
    from b' nd have bb: "readSectionHeaders_body m' = Inr m1'"
      by (auto simp: m1'_def sec'_def)
    have k1: "off + n = length A + (Suc k + length a + n)"
      "off' + n = length A' + (Suc k + length a + n)"
      by (simp_all add: off off'_def)
    have p2: "buf m1 = (A @ R, length A + (Suc k + length a + n))"
      using b1 k1 by simp
    have p3: "size_m m1 = length (A @ R)" using s1 "1.prems"(3) by simp
    have p4: "buf m1' = (A' @ R, length A' + (Suc k + length a + n))"
      using k1 by (simp add: m1'_def)
    have p5: "size_m m1' = length (A' @ R)" using "1.prems"(5) by (simp add: m1'_def)
    have p6: "dom (section_map m1') = dom (section_map m1)"
      using mp t "1.prems"(6) by (auto simp: m1'_def)
    from "1.IH" [OF ne b r p2 p3 p4 p5 p6] obtain r' new where
      rr: "Module_readSectionHeaders m1' = Inr r'"
      and n1: "sections r = sections m1 @ new"
      and n2: "sections r' = sections m1' @ map (shift_section (length A) (length A')) new"
      by blast
    from bb rr ne' have "Module_readSectionHeaders m' = Inr r'"
      by (simp add: Module_readSectionHeaders.simps [of m'])
    moreover from n1 secs t have "sections r = sections m @ (sec # new)"
      by (simp add: sec_def)
    moreover from n2 sh have "sections r' = sections m' @
        map (shift_section (length A) (length A')) (sec # new)"
      by (simp add: m1'_def)
    ultimately show ?thesis by blast
  qed
qed

section \<open>A file with a new first section opens\<close>

lemma scan_appends:
  assumes "Module_readSectionHeaders m = Inr r" and "size_m m = length (fst (buf m))"
  shows "\<exists>new. sections r = sections m @ new"
proof -
  have b: "buf m = ([] @ fst (buf m), length ([] :: bytes) + snd (buf m))"
    by (simp add: prod_eq_iff)
  have s: "size_m m = length ([] @ fst (buf m))" using assms(2) by simp
  from scan_shift [OF assms(1) b s b s refl] show ?thesis by blast
qed

lemma first_section_state:
  assumes o: "Module_init f = Inr m" and secs: "sections m = sec # rest"
    and cu: "type_s sec = 0"
  shows "\<exists>m1. Module_readSectionHeaders m1 = Inr m
           \<and> buf m1 = (f, offset_s sec + size_s sec) \<and> size_m m1 = length f
           \<and> section_map m1 = Map.empty \<and> sections m1 = [sec]"
proof -
  note sc = Module_init_Inr(2) [OF o]
  have ne: "io_tell (buf (after_header f)) \<noteq> size_m (after_header f)"
  proof
    assume "io_tell (buf (after_header f)) = size_m (after_header f)"
    with sc have "m = after_header f"
      by (simp add: Module_readSectionHeaders.simps [of "after_header f"])
    with secs show False by (simp add: after_header_def)
  qed
  with sc obtain m1 where b: "readSectionHeaders_body (after_header f) = Inr m1"
    and r: "Module_readSectionHeaders m1 = Inr m"
    by (auto simp: Module_readSectionHeaders.simps [of "after_header f"] split: sum.splits)
  have bh: "buf (after_header f) = (f, 8)" by (simp add: after_header_def)
  from readSectionHeaders_body_Inr [OF b bh] obtain n off where
    b1: "buf m1 = (f, off + n)" and s1: "size_m m1 = length f"
    and se: "sections m1 = [\<lparr>type_s = f ! 8, size_s = n, offset_s = off\<rparr>]"
    and mp: "if f ! 8 \<noteq> 0
             then f ! 8 \<notin> dom (section_map (after_header f))
                \<and> section_map m1 = (section_map (after_header f))(f ! 8 \<mapsto>
                     \<lparr>type_s = f ! 8, size_s = n, offset_s = off\<rparr>)
             else section_map m1 = section_map (after_header f)"
    by (auto simp: after_header_def)
  from scan_appends [OF r] s1 b1 obtain new where "sections m = sections m1 @ new"
    by auto
  with se secs have sec: "sec = \<lparr>type_s = f ! 8, size_s = n, offset_s = off\<rparr>" by simp
  with cu have "f ! 8 = 0" by simp
  with mp have "section_map m1 = Map.empty" by (simp add: after_header_def)
  with r b1 s1 se sec show ?thesis by (intro exI [of _ m1]) simp
qed

lemma shift_section_eq:
  "se \<le> lf \<Longrightarrow> shift_section lf (a + (lf - se)) = shift_section se a"
  by (auto simp: shift_section_def fun_eq_iff)

lemma rewritten_file_opens:
  assumes hdr: "take 8 f = wasm_header"
    and r: "Module_readSectionHeaders m1 = Inr m"
    and b1: "buf m1 = (f, se)" and s1: "size_m m1 = length f" and le: "se \<le> length f"
    and mp: "section_map m1 = Map.empty"
    and f': "f' = take 8 f @ [0] @ toLEB (length body) @ body @ drop se f"
  shows "\<exists>m' new. Module_init f' = Inr m' \<and> sections m = sections m1 @ new
           \<and> sections m' = \<lparr>type_s = 0, size_s = length body,
                              offset_s = 9 + length (toLEB (length body))\<rparr>
                            # map (shift_section (length f) (length f')) new"
proof -
  define A where "A = take se f"
  define R where "R = drop se f"
  define A' where "A' = take 8 f @ [0] @ toLEB (length body) @ body"
  define off where "off = 9 + length (toLEB (length body))"
  define new0 where "new0 = \<lparr>type_s = 0, size_s = length body, offset_s = off\<rparr>"
  have l8: "length (take 8 f) = 8" using hdr by (simp add: wasm_header_def)
  have f: "f = A @ R" and lA: "length A = se" using le by (simp_all add: A_def R_def)
  have f'': "f' = A' @ R" by (simp add: f' A'_def R_def)
  have lA': "length A' = off + length body" using l8 by (simp add: A'_def off_def)
  have h': "take 8 f' = wasm_header" using l8 hdr by (simp add: f')
  note i' = Module_init_header [OF h']
  have bh: "buf (after_header f') = (f', 8)" by (simp add: after_header_def)
  have lt: "8 < length f'" using l8 by (simp add: f')
  have d9: "drop 9 f' = toLEB (length body) @ (body @ drop se f)"
    using l8 by (simp add: f')
  have ru: "readULEB (f', Suc 8) = Inr (length body, (f', off))"
    using readULEB_toLEB [OF d9] by (simp add: off_def)
  have n8: "f' ! 8 = 0" using l8 by (simp add: f' nth_append)
  define m1' where "m1' = (after_header f')\<lparr>buf := (f', off + length body),
      sections := [new0]\<rparr>"
  from readSectionHeaders_body_eq [OF bh lt ru] n8
  have bb: "readSectionHeaders_body (after_header f') = Inr m1'"
    by (simp add: m1'_def new0_def after_header_def)
  have ne: "io_tell (buf (after_header f')) \<noteq> size_m (after_header f')"
    using lt by (simp add: after_header_def io_tell_def)
  have sc: "Module_readSectionHeaders (after_header f') = Module_readSectionHeaders m1'"
    using bb ne by (simp add: Module_readSectionHeaders.simps [of "after_header f'"])
  have p2: "buf m1 = (A @ R, length A + 0)" using b1 f lA by simp
  have p3: "size_m m1 = length (A @ R)" using s1 f by simp
  have p4: "buf m1' = (A' @ R, length A' + 0)" by (simp add: m1'_def f'' lA')
  have p5: "size_m m1' = length (A' @ R)" by (simp add: m1'_def after_header_def f'')
  have p6: "dom (section_map m1') = dom (section_map m1)"
    by (simp add: m1'_def after_header_def mp)
  from scan_shift [OF r p2 p3 p4 p5 p6] obtain r' new where
    rr: "Module_readSectionHeaders m1' = Inr r'"
    and n1: "sections m = sections m1 @ new"
    and n2: "sections r' = sections m1' @ map (shift_section (length A) (length A')) new"
    by blast
  have "length f' = length A' + (length f - se)" by (simp add: f'' R_def)
  with shift_section_eq [OF le, of "length A'"] lA
  have "shift_section (length f) (length f') = shift_section (length A) (length A')"
    by simp
  with n2 have "sections r' = new0 # map (shift_section (length f) (length f')) new"
    by (simp add: m1'_def)
  with i' sc rr n1 show ?thesis by (auto simp: new0_def off_def)
qed

lemma header_length:
  assumes "take 8 f = wasm_header"
  shows "8 \<le> length f"
proof -
  have "length (take 8 f) = length wasm_header" by (simp only: assms)
  then show ?thesis by (simp add: wasm_header_def)
qed

text \<open>
  C9. A file that opens still opens after \<open>add_emscripten_metadata\<close>, and after a
  successful \<open>update_dylink_section\<close>: the new custom section is the first section,
  its declared size is the length of its length-prefixed name and payload, and the
  sections kept from the original (all of them for the metadata, all but the first for
  the dylink update) follow in order, their offsets moved by the difference between the
  lengths of the two files.
\<close>

theorem rewrites_preserve_wellformedness:
  "(Module_init f = Inr m \<longrightarrow>
      (\<exists>m' body payload.
           body = length_prefixed (bytes_lit ''emscripten_metadata'') @ payload
         \<and> add_emscripten_metadata S f
             = take 8 f @ [0] @ toLEB (length body) @ body @ drop 8 f
         \<and> Module_init (add_emscripten_metadata S f) = Inr m'
         \<and> sections m'
             = \<lparr>type_s = 0, size_s = length body,
                offset_s = 9 + length (toLEB (length body))\<rparr>
               # map (shift_section (length f) (length (add_emscripten_metadata S f)))
                   (sections m)))
   \<and> (Module_init f = Inr m \<and> update_dylink_section f extra = Inr f' \<longrightarrow>
      (\<exists>m' body payload sec rest.
           body = length_prefixed (bytes_lit ''dylink'') @ payload
         \<and> sections m = sec # rest
         \<and> f' = take 8 f @ [0] @ toLEB (length body) @ body
                 @ drop (offset_s sec + size_s sec) f
         \<and> Module_init f' = Inr m'
         \<and> sections m'
             = \<lparr>type_s = 0, size_s = length body,
                offset_s = 9 + length (toLEB (length body))\<rparr>
               # map (shift_section (length f) (length f')) rest))"
proof (intro conjI impI)
  assume o: "Module_init f = Inr m"
  note hdr = Module_init_Inr(1) [OF o] and sc = Module_init_Inr(2) [OF o]
  define payload where "payload =
      toLEB EMSCRIPTEN_METADATA_MAJOR @ toLEB EMSCRIPTEN_METADATA_MINOR @
      toLEB EMSCRIPTEN_ABI_MAJOR @ toLEB EMSCRIPTEN_ABI_MINOR @ toLEB 1 @
      toLEB (INITIAL_MEMORY S div WASM_PAGE_SIZE) @ toLEB 0 @ toLEB (GLOBAL_BASE S) @
      toLEB 0 @ toLEB 0 @ toLEB 0 @ toLEB (STANDALONE_WASM S)"
  define body where "body = length_prefixed (bytes_lit ''emscripten_metadata'') @ payload"
  have nm: "length_prefixed (bytes_lit ''emscripten_metadata'')
      = 19 # bytes_lit ''emscripten_metadata''"
    by (simp add: length_prefixed_def bytes_lit_def toLEB_small)
  have lb: "length body = length (19 # bytes_lit ''emscripten_metadata'') + length payload"
    unfolding body_def nm by simp
  have out: "add_emscripten_metadata S f
      = take 8 f @ [0] @ toLEB (length body) @ body @ drop 8 f"
    unfolding lb by (simp add: add_emscripten_metadata_def Let_def payload_def body_def nm)
  from rewritten_file_opens [OF hdr sc _ _ header_length [OF hdr] _ out]
  obtain m' new where o': "Module_init (add_emscripten_metadata S f) = Inr m'"
    and n1: "sections m = sections (after_header f) @ new"
    and n2: "sections m' = \<lparr>type_s = 0, size_s = length body,
                              offset_s = 9 + length (toLEB (length body))\<rparr>
          # map (shift_section (length f) (length (add_emscripten_metadata S f))) new"
    by (auto simp: after_header_def)
  from n1 have "new = sections m" by (simp add: after_header_def)
  with body_def out o' n2
  show "\<exists>m' body payload.
           body = length_prefixed (bytes_lit ''emscripten_metadata'') @ payload
         \<and> add_emscripten_metadata S f
             = take 8 f @ [0] @ toLEB (length body) @ body @ drop 8 f
         \<and> Module_init (add_emscripten_metadata S f) = Inr m'
         \<and> sections m'
             = \<lparr>type_s = 0, size_s = length body,
                offset_s = 9 + length (toLEB (length body))\<rparr>
               # map (shift_section (length f) (length (add_emscripten_metadata S f)))
                   (sections m)"
    by blast
next
  assume a: "Module_init f = Inr m \<and> update_dylink_section f extra = Inr f'"
  then have o: "Module_init f = Inr m" and u: "update_dylink_section f extra = Inr f'"
    by simp_all
  note hdr = Module_init_Inr(1) [OF o]
  from update_dylink_section_Inr [OF u] obtain ms ma ts ta se needed contents where
    p: "parse_dylink_section f = Inr (ms, ma, ts, ta, se, needed)" and
    out: "f' = take 8 f @ [0] @ toLEB (7 + length contents) @ (6 # bytes_lit ''dylink'')
                 @ contents @ drop se f"
    by blast
  from parse_dylink_section_Inr [OF p] o obtain sec rest where
    secs: "sections m = sec # rest" and cu: "type_s sec = 0"
    and se: "se = offset_s sec + size_s sec"
    by auto
  define body where "body = length_prefixed (bytes_lit ''dylink'') @ contents"
  have nm: "length_prefixed (bytes_lit ''dylink'') = 6 # bytes_lit ''dylink''"
    by (simp add: length_prefixed_def bytes_lit_def toLEB_small)
  have lb: "length body = 7 + length contents"
    unfolding body_def nm by (simp add: bytes_lit_def)
  have out': "f' = take 8 f @ [0] @ toLEB (length body) @ body @ drop se f"
    unfolding lb by (simp add: out body_def nm)
  from scan_frames [OF o] secs have "frames f se rest (length f)" by (simp add: se)
  from frames_mono [OF this] have le: "se \<le> length f" .
  from first_section_state [OF o secs cu] obtain m1 where
    r: "Module_readSectionHeaders m1 = Inr m"
    and b1: "buf m1 = (f, se)" and s1: "size_m m1 = length f"
    and mp: "section_map m1 = Map.empty" and s0: "sections m1 = [sec]"
    by (auto simp: se)
  from rewritten_file_opens [OF hdr r b1 s1 le mp out']
  obtain m' new where o': "Module_init f' = Inr m'"
    and n1: "sections m = sections m1 @ new"
    and n2: "sections m' = \<lparr>type_s = 0, size_s = length body,
                              offset_s = 9 + length (toLEB (length body))\<rparr>
          # map (shift_section (length f) (length f')) new"
    by blast
  from n1 s0 secs have "new = rest" by simp
  with body_def secs out' o' n2 se
  show "\<exists>m' body payload sec rest.
           body = length_prefixed (bytes_lit ''dylink'') @ payload
         \<and> sections m = sec # rest
         \<and> f' = take 8 f @ [0] @ toLEB (length body) @ body
                 @ drop (offset_s sec + size_s sec) f
         \<and> Module_init f' = Inr m'
         \<and> sections m'
             = \<lparr>type_s = 0, size_s = length body,
                offset_s = 9 + length (toLEB (length body))\<rparr>
               # map (shift_section (length f) (length f')) rest"
    by blast
qed

theorem rewrites_preserve_wellformedness_witness:
  "\<exists>m. Module_init short_dylink_file = Inr m
     \<and> update_dylink_section short_dylink_file [[98]]
         = Inr [0, 97, 115, 109, 1, 0, 0, 0, 0, 16, 6, 100, 121, 108, 105, 110, 107,
                16, 4, 8, 0, 2, 1, 1, 1, 98, 1, 1, 97]
     \<and> (\<exists>m' (body :: bytes). Module_init (add_emscripten_metadata settings_16M short_dylink_file) = Inr m'
           \<and> sections m'
             = \<lparr>type_s = 0, size_s = length body,
                offset_s = 9 + length (toLEB (length body))\<rparr>
               # map (shift_section (length short_dylink_file)
                       (length (add_emscripten_metadata settings_16M short_dylink_file)))
                   (sections m))
     \<and> (\<exists>m' (body :: bytes) sec rest. sections m = sec # rest
           \<and> Module_init [0, 97, 115, 109, 1, 0, 0, 0, 0, 16, 6, 100, 121, 108, 105, 110, 107,
                16, 4, 8, 0, 2, 1, 1, 1, 98, 1, 1, 97] = Inr m'
           \<and> sections m'
             = \<lparr>type_s = 0, size_s = length body,
                offset_s = 9 + length (toLEB (length body))\<rparr>
               # map (shift_section (length short_dylink_file)
                       (length ([0, 97, 115, 109, 1, 0, 0, 0, 0, 16, 6, 100, 121, 108, 105, 110, 107,
                16, 4, 8, 0, 2, 1, 1, 1, 98, 1, 1, 97] :: bytes))) rest)"
proof -
  have "map_sum id sections (Module_init short_dylink_file)
       = Inr [\<lparr>type_s = 0, size_s = 12, offset_s = 10\<rparr>,
              \<lparr>type_s = 1, size_s = 1, offset_s = 24\<rparr>]"
    by code_simp
  from map_sum_Inr [OF this] obtain m where m: "Module_init short_dylink_file = Inr m"
    by blast
  have h: "update_dylink_section short_dylink_file [[98]]
     = Inr [0, 97, 115, 109, 1, 0, 0, 0, 0, 16, 6, 100, 121, 108, 105, 110, 107,
                16, 4, 8, 0, 2, 1, 1, 1, 98, 1, 1, 97]"
    by code_simp
  note t = rewrites_preserve_wellformedness [of short_dylink_file m settings_16M "[[98]]"
      "[0, 97, 115, 109, 1, 0, 0, 0, 0, 16, 6, 100, 121, 108, 105, 110, 107,
                16, 4, 8, 0, 2, 1, 1, 1, 98, 1, 1, 97]"]
  from t [THEN conjunct1, THEN mp, OF m] obtain m1 and body1 :: bytes where
    a1: "Module_init (add_emscripten_metadata settings_16M short_dylink_file) = Inr m1"
    and a2: "sections m1
             = \<lparr>type_s = 0, size_s = length body1,
                offset_s = 9 + length (toLEB (length body1))\<rparr>
               # map (shift_section (length short_dylink_file)
                       (length (add_emscripten_metadata settings_16M short_dylink_file)))
                   (sections m)"
    by blast
  from t [THEN conjunct2, THEN mp, OF conjI [OF m h]] obtain m2 and body2 :: bytes and sec rest where
    b0: "sections m = sec # rest"
    and b1: "Module_init [0, 97, 115, 109, 1, 0, 0, 0, 0, 16, 6, 100, 121, 108, 105, 110, 107,
                16, 4, 8, 0, 2, 1, 1, 1, 98, 1, 1, 97] = Inr m2"
    and b2: "sections m2
             = \<lparr>type_s = 0, size_s = length body2,
                offset_s = 9 + length (toLEB (length body2))\<rparr>
               # map (shift_section (length short_dylink_file)
                       (length ([0, 97, 115, 109, 1, 0, 0, 0, 0, 16, 6, 100, 121, 108, 105, 110, 107,
                16, 4, 8, 0, 2, 1, 1, 1, 98, 1, 1, 97] :: bytes))) rest"
    by blast
  from m h a1 a2 b0 b1 b2 show ?thesis by blast
qed

section \<open>Writing and reading back the dylink payload\<close>










section \<open>The dylink round trip\<close>



end
